theory Spec2Isabelle
  imports Main
begin

section \<open>The test-vector generator \<open>testgen.py\<close>\<close>

text \<open>
  The script draws pseudo-random integers and writes them, one per line and rendered by
  the format \<open>08x\<close>, to three text files. Everything it does beyond computing is an
  effect: it consumes the pseudo-random stream, it opens, writes and closes files, and it
  prints one line. The model makes these effects explicit:
  \<^item> the state of the generator is a value of an arbitrary type \<open>'g\<close>, threaded through
    every draw;
  \<^item> the file system is a map from file names to contents;
  \<^item> every input/output operation that the script attempts is appended to a trace, with
    its outcome;
  \<^item> an exception is a result \<open>Inl\<close>, which carries the state of the world at the
    moment it was raised.
\<close>

subsection \<open>The world and the runtime\<close>

datatype event =
    Open string
  | Write string string
  | Close string
  | Print string

datatype error =
    IndexError
  | OSError event

text \<open>An entry of the trace: an operation that was carried out, or one that was refused.\<close>

datatype entry =
    Performed event
  | Refused event

text \<open>
  The module \<open>random\<close> and the operating system are not part of the script. They are
  parameters of the model: \<open>getrandbits k\<close> and \<open>randint a b\<close> take the state of the
  generator and return the drawn integer with the next state, and \<open>io_fails h e\<close> says
  whether the operating system refuses the operation \<open>e\<close> after the history \<open>h\<close>.
\<close>

record 'g runtime =
  getrandbits :: "nat \<Rightarrow> 'g \<Rightarrow> int \<times> 'g"
  randint :: "int \<Rightarrow> int \<Rightarrow> 'g \<Rightarrow> int \<times> 'g"
  io_fails :: "entry list \<Rightarrow> event \<Rightarrow> bool"

record 'g world =
  rng :: 'g
  files :: "string \<rightharpoonup> string"
  trace :: "entry list"

type_synonym ('a, 'g) prog = "'g world \<Rightarrow> (error \<times> 'g world) + ('a \<times> 'g world)"

definition ret :: "'a \<Rightarrow> ('a, 'g) prog" where
  "ret x w = Inr (x, w)"

definition bnd :: "('a, 'g) prog \<Rightarrow> ('a \<Rightarrow> ('b, 'g) prog) \<Rightarrow> ('b, 'g) prog" where
  "bnd m f w = (case m w of Inl ew \<Rightarrow> Inl ew | Inr (x, w') \<Rightarrow> f x w')"

subsection \<open>Random draws, list comprehensions and indexing\<close>

definition random_getrandbits :: "'g runtime \<Rightarrow> nat \<Rightarrow> (int, 'g) prog" where
  "random_getrandbits rt k w =
     (case getrandbits rt k (rng w) of (x, g') \<Rightarrow> Inr (x, w\<lparr>rng := g'\<rparr>))"

definition random_randint :: "'g runtime \<Rightarrow> int \<Rightarrow> int \<Rightarrow> (int, 'g) prog" where
  "random_randint rt a b w =
     (case randint rt a b (rng w) of (x, g') \<Rightarrow> Inr (x, w\<lparr>rng := g'\<rparr>))"

text \<open>\<open>[e for _ in range(n)]\<close>: the expression is evaluated \<open>n\<close> times, in order.\<close>

fun list_comp :: "nat \<Rightarrow> ('a, 'g) prog \<Rightarrow> ('a list, 'g) prog" where
  "list_comp 0 m = ret []"
| "list_comp (Suc n) m = bnd m (\<lambda>x. bnd (list_comp n m) (\<lambda>xs. ret (x # xs)))"

text \<open>
  \<open>xs[i]\<close>: an index from \<open>-len(xs)\<close> to \<open>len(xs) - 1\<close> is valid, a negative one counting
  from the end; any other raises \<open>IndexError\<close>.
\<close>

definition py_index :: "'a list \<Rightarrow> int \<Rightarrow> ('a, 'g) prog" where
  "py_index xs i w =
     (if 0 \<le> i \<and> i < int (length xs) then Inr (xs ! nat i, w)
      else if - int (length xs) \<le> i \<and> i < 0 then Inr (xs ! nat (int (length xs) + i), w)
      else Inl (IndexError, w))"

subsection \<open>The format \<open>08x\<close>\<close>

definition hex_digit :: "nat \<Rightarrow> char" where
  "hex_digit d = ''0123456789abcdef'' ! d"

text \<open>\<open>format(n, 'x')\<close> for \<open>n \<ge> 0\<close>: the lowercase hexadecimal digits, no leading zero.\<close>

fun hex_digits :: "nat \<Rightarrow> string" where
  "hex_digits n =
     (if n < 16 then [hex_digit n] else hex_digits (n div 16) @ [hex_digit (n mod 16)])"

declare hex_digits.simps [simp del]

definition zfill :: "nat \<Rightarrow> string \<Rightarrow> string" where
  "zfill width s = replicate (width - length s) (CHR ''0'') @ s"

text \<open>
  \<open>f"{number:08x}"\<close>: the minimum width is 8 and the padding with zeros is sign-aware,
  so the sign of a negative number comes first and counts in the width. A number that
  needs more than 8 characters is not truncated.
\<close>

definition format_08x :: "int \<Rightarrow> string" where
  "format_08x number =
     (if number < 0 then CHR ''-'' # zfill 7 (hex_digits (nat (- number)))
      else zfill 8 (hex_digits (nat number)))"

definition newline :: char where
  "newline = CHR 0x0A"

subsection \<open>Files\<close>

text \<open>
  An operation that the operating system refuses raises \<open>OSError\<close> and has no effect;
  one that is carried out has its effect. Both are appended to the trace. Writes are
  modelled unbuffered: the content of a file is what has been written to it so far. The
  content is the text that the script writes: how the platform encodes it, and how it
  translates the newline, is not modelled. Files are identified by their names.
\<close>

definition perform :: "'g runtime \<Rightarrow> event \<Rightarrow> ('g world \<Rightarrow> 'g world) \<Rightarrow> (unit, 'g) prog" where
  "perform rt ev effect w =
     (if io_fails rt (trace w) ev then Inl (OSError ev, w\<lparr>trace := trace w @ [Refused ev]\<rparr>)
      else Inr ((), (effect w)\<lparr>trace := trace w @ [Performed ev]\<rparr>))"

text \<open>\<open>open(name, 'w')\<close> creates the file or truncates it.\<close>

definition file_open :: "'g runtime \<Rightarrow> string \<Rightarrow> (unit, 'g) prog" where
  "file_open rt name = perform rt (Open name) (\<lambda>w. w\<lparr>files := (files w)(name \<mapsto> [])\<rparr>)"

definition file_write :: "'g runtime \<Rightarrow> string \<Rightarrow> string \<Rightarrow> (unit, 'g) prog" where
  "file_write rt name data =
     perform rt (Write name data)
       (\<lambda>w. w\<lparr>files := (files w)(name \<mapsto>
          (case files w name of None \<Rightarrow> data | Some old \<Rightarrow> old @ data))\<rparr>)"

definition file_close :: "'g runtime \<Rightarrow> string \<Rightarrow> (unit, 'g) prog" where
  "file_close rt name = perform rt (Close name) (\<lambda>w. w)"

definition py_print :: "'g runtime \<Rightarrow> string \<Rightarrow> (unit, 'g) prog" where
  "py_print rt msg = perform rt (Print msg) (\<lambda>w. w)"

text \<open>
  \<open>with open(name, 'w') as file: body\<close>: the file is closed when the body ends, also
  when the body raises; the exception of the body is raised again after the close, unless
  the close itself raises.
\<close>

definition with_open :: "'g runtime \<Rightarrow> string \<Rightarrow> (unit, 'g) prog \<Rightarrow> (unit, 'g) prog" where
  "with_open rt name body w =
     (case file_open rt name w of
        Inl ew \<Rightarrow> Inl ew
      | Inr (_, w1) \<Rightarrow>
          (case body w1 of
             Inl (e, w2) \<Rightarrow>
               (case file_close rt name w2 of
                  Inl ew \<Rightarrow> Inl ew
                | Inr (_, w3) \<Rightarrow> Inl (e, w3))
           | Inr (_, w2) \<Rightarrow> file_close rt name w2))"

text \<open>\<open>for x in xs: body\<close>\<close>

fun for_each :: "'a list \<Rightarrow> ('a \<Rightarrow> (unit, 'g) prog) \<Rightarrow> (unit, 'g) prog" where
  "for_each [] body = ret ()"
| "for_each (x # xs) body = bnd (body x) (\<lambda>_. for_each xs body)"

text \<open>
  The three blocks of the script that write a file differ in the name of the file and in
  the list they write only:
  \<^verbatim>\<open>
  with open(name, 'w') as file:
      for number in numbers:
          file.write(f"{number:08x}\n")
  \<close>
\<close>

definition write_numbers :: "'g runtime \<Rightarrow> string \<Rightarrow> int list \<Rightarrow> (unit, 'g) prog" where
  "write_numbers rt name numbers =
     with_open rt name
       (for_each numbers (\<lambda>number. file_write rt name (format_08x number @ [newline])))"

subsection \<open>The script\<close>

text \<open>
  The message that the script prints last, as the bytes of its UTF-8 encoding; the file
  name in it is ASCII.
\<close>

definition status_message :: string where
  "status_message =
     map char_of [233, 154, 143, 230, 156, 186, 230, 149, 176, 229, 183, 178, 231, 148,
       159, 230, 136, 144, 229, 185, 182, 228, 187, 165, 49, 54, 232, 191, 155, 229, 136,
       182, 230, 160, 188, 229, 188, 143, 229, 134, 153, 229, 133, 165, 229, 136, 176 :: nat]
     @ ''random_numbers_hex.txt''
     @ map char_of [230, 150, 135, 228, 187, 182, 228, 184, 173, 227, 128, 130 :: nat]"

text \<open>\<open>random_flow = [random.getrandbits(32) for _ in range(64)]\<close>\<close>

definition draw_pool :: "'g runtime \<Rightarrow> (int list, 'g) prog" where
  "draw_pool rt = list_comp 64 (random_getrandbits rt 32)"

text \<open>\<open>random_numbers = [random_flow[random.randint(0,63)] for _ in range(2048)]\<close>\<close>

definition resample :: "'g runtime \<Rightarrow> int list \<Rightarrow> (int list, 'g) prog" where
  "resample rt random_flow =
     list_comp 2048 (bnd (random_randint rt 0 63) (py_index random_flow))"

definition head_info :: "'g runtime \<Rightarrow> (unit, 'g) prog" where
  "head_info rt =
     bnd (draw_pool rt) (\<lambda>random_flow.
     bnd (resample rt random_flow) (\<lambda>random_numbers.
     write_numbers rt ''head_info.txt'' random_numbers))"

definition buff_addr :: "'g runtime \<Rightarrow> (unit, 'g) prog" where
  "buff_addr rt =
     bnd (list_comp 2048 (random_getrandbits rt 32)) (\<lambda>random_flow.
     write_numbers rt ''buff_addr.txt'' random_flow)"

definition buff_gapn :: "'g runtime \<Rightarrow> (unit, 'g) prog" where
  "buff_gapn rt =
     bnd (list_comp 2048 (bnd (random_getrandbits rt 32) (\<lambda>x. ret (x mod 32)))) (\<lambda>random_flow.
     write_numbers rt ''buff_gapn.txt'' random_flow)"

definition testgen :: "'g runtime \<Rightarrow> (unit, 'g) prog" where
  "testgen rt =
     bnd (head_info rt) (\<lambda>_.
     bnd (buff_addr rt) (\<lambda>_.
     bnd (buff_gapn rt) (\<lambda>_.
     py_print rt status_message)))"

subsection \<open>Reading the files back\<close>

text \<open>
  The lines of a text: the newline-terminated lines, without their newlines, and what
  follows the last newline.
\<close>

fun split_lines :: "string \<Rightarrow> string list \<times> string" where
  "split_lines [] = ([], [])"
| "split_lines (c # cs) =
     (case split_lines cs of
        (ls, r) \<Rightarrow>
          if c = newline then ([] # ls, r)
          else (case ls of [] \<Rightarrow> ([], c # r) | l # ls' \<Rightarrow> ((c # l) # ls', r)))"

text \<open>
  The integer that a line encodes, as \<open>int(line, 16)\<close> reads a string that consists of
  an optional minus sign and then at least one hexadecimal digit, the most significant
  first; on a string with any other character \<open>int\<close> raises \<open>ValueError\<close>, which is
  the result \<open>None\<close> here.
\<close>

definition hex_value :: "char \<Rightarrow> nat option" where
  "hex_value c =
     (let n = of_char c :: nat in
      if 48 \<le> n \<and> n \<le> 57 then Some (n - 48)
      else if 97 \<le> n \<and> n \<le> 102 then Some (n - 87)
      else if 65 \<le> n \<and> n \<le> 70 then Some (n - 55)
      else None)"

fun read_hex_nat :: "nat \<Rightarrow> string \<Rightarrow> nat option" where
  "read_hex_nat acc [] = Some acc"
| "read_hex_nat acc (c # cs) =
     (case hex_value c of None \<Rightarrow> None | Some d \<Rightarrow> read_hex_nat (16 * acc + d) cs)"

definition read_hex :: "string \<Rightarrow> int option" where
  "read_hex s =
     (case s of
        [] \<Rightarrow> None
      | c # cs \<Rightarrow>
          if c = CHR ''-'' then
            (if cs = [] then None else map_option (\<lambda>n. - int n) (read_hex_nat 0 cs))
          else map_option int (read_hex_nat 0 s))"

definition lower_hex :: "char \<Rightarrow> bool" where
  "lower_hex c = (c \<in> set ''0123456789abcdef'')"

text \<open>The lines of a file of a world, when the file exists.\<close>

definition file_lines :: "'g world \<Rightarrow> string \<Rightarrow> (string list \<times> string) option" where
  "file_lines w name = map_option split_lines (files w name)"

definition output_files :: "string list" where
  "output_files = [''head_info.txt'', ''buff_addr.txt'', ''buff_gapn.txt'']"

text \<open>The world in which a run ends, whether it ends normally or by an exception.\<close>

definition outcome_world :: "(error \<times> 'g world) + ('a \<times> 'g world) \<Rightarrow> 'g world" where
  "outcome_world r = (case r of Inl (e, w) \<Rightarrow> w | Inr (x, w) \<Rightarrow> w)"

subsection \<open>What the script relies on\<close>

text \<open>
  The documented ranges of the two functions of \<open>random\<close> that the script calls, at the
  arguments it calls them with: \<open>getrandbits(32)\<close> is a non-negative integer of at most
  32 bits, and \<open>randint(0, 63)\<close> is an integer from 0 to 63.
\<close>

definition getrandbits_ok :: "'g runtime \<Rightarrow> bool" where
  "getrandbits_ok rt =
     (\<forall>g. 0 \<le> fst (getrandbits rt 32 g) \<and> fst (getrandbits rt 32 g) < 2 ^ 32)"

definition randint_ok :: "'g runtime \<Rightarrow> bool" where
  "randint_ok rt =
     (\<forall>g. 0 \<le> fst (randint rt 0 63 g) \<and> fst (randint rt 0 63 g) \<le> 63)"

text \<open>
  A runtime to run the script on: a counter as generator, which returns the low bits
  of its state, and an operating system that refuses nothing.
\<close>

definition counter_rt :: "nat runtime" where
  "counter_rt =
     \<lparr>getrandbits = (\<lambda>k g. (int (g mod 2 ^ k), Suc g)),
      randint = (\<lambda>a b g. (a + int g mod (b - a + 1), Suc g)),
      io_fails = (\<lambda>h e. False)\<rparr>"

definition seeded :: "nat \<Rightarrow> nat world" where
  "seeded s = \<lparr>rng = s, files = Map.empty, trace = []\<rparr>"

subsection \<open>What a run leaves behind\<close>

text \<open>The content of a file to which the numbers were written, and the trace of writing it.\<close>

definition rendered :: "int list \<Rightarrow> string" where
  "rendered numbers = concat (map (\<lambda>number. format_08x number @ [newline]) numbers)"

definition writes :: "string \<Rightarrow> int list \<Rightarrow> entry list" where
  "writes name numbers =
     map (\<lambda>number. Performed (Write name (format_08x number @ [newline]))) numbers"

definition block :: "string \<Rightarrow> int list \<Rightarrow> entry list" where
  "block name numbers =
     Performed (Open name) # writes name numbers @ [Performed (Close name)]"

text \<open>
  A program that only draws and computes: it leaves the files and the trace as they
  are, and the only exception it can raise is \<open>IndexError\<close>.
\<close>

definition quiet :: "('a, 'g) prog \<Rightarrow> bool" where
  "quiet m =
     (\<forall>w. files (outcome_world (m w)) = files w \<and> trace (outcome_world (m w)) = trace w \<and>
          (case m w of Inl (e, w') \<Rightarrow> e = IndexError | Inr xw \<Rightarrow> True))"

text \<open>
  How a run can end by an exception of the operating system. The trace then ends with
  the refused operation, followed at most by the close of the file that was open, which
  the \<open>with\<close> statement attempts before the exception leaves it. The exception is the one
  of the refused operation, unless that close is refused too.
\<close>

fun refusal :: "error \<Rightarrow> entry list \<Rightarrow> bool" where
  "refusal (OSError ev) [Refused e] = (ev = e)"
| "refusal err post = False"

fun aftermath :: "error \<Rightarrow> entry list \<Rightarrow> bool" where
  "aftermath (OSError ev) [Refused e] = (ev = e)"
| "aftermath (OSError ev) [Refused e, Performed (Close n)] = (ev = e)"
| "aftermath (OSError ev) [Refused e, Refused (Close n)] = (ev = Close n)"
| "aftermath err post = False"

text \<open>
  A program is orderly when it carries out every operation until one is refused, and
  then ends by an exception, with a trace that ends as \<open>A\<close> allows.
\<close>

definition orderly :: "(error \<Rightarrow> entry list \<Rightarrow> bool) \<Rightarrow> ('a, 'g) prog \<Rightarrow> bool" where
  "orderly A m =
     (\<forall>w. case m w of
            Inr (x, w') \<Rightarrow> (\<exists>evs. trace w' = trace w @ map Performed evs)
          | Inl (err, w') \<Rightarrow>
              (\<exists>evs post. trace w' = trace w @ map Performed evs @ post \<and> A err post))"

text \<open>A runtime whose operating system refuses every operation.\<close>

definition refusing_rt :: "nat runtime" where
  "refusing_rt = counter_rt\<lparr>io_fails := (\<lambda>h e. True)\<rparr>"

text \<open>The file that an entry of the trace is about, and the files that a trace opened.\<close>

fun entry_event :: "entry \<Rightarrow> event" where
  "entry_event (Performed e) = e"
| "entry_event (Refused e) = e"

fun event_file :: "event \<Rightarrow> string option" where
  "event_file (Open name) = Some name"
| "event_file (Write name data) = Some name"
| "event_file (Close name) = Some name"
| "event_file (Print msg) = None"

definition within :: "string list \<Rightarrow> entry \<Rightarrow> bool" where
  "within names en =
     (case event_file (entry_event en) of None \<Rightarrow> True | Some name \<Rightarrow> name \<in> set names)"

fun opened :: "entry list \<Rightarrow> string list" where
  "opened [] = []"
| "opened (Performed (Open name) # es) = name # opened es"
| "opened (e # es) = opened es"

text \<open>
  A world extends another within a list of names when its trace continues the other's
  by entries about files of these names, or about no file, and every file of another
  name is as it was.
\<close>

definition extends :: "string list \<Rightarrow> 'g world \<Rightarrow> 'g world \<Rightarrow> bool" where
  "extends names w w' =
     ((\<exists>new. trace w' = trace w @ new \<and> list_all (within names) new) \<and>
      (\<forall>name. name \<notin> set names \<longrightarrow> files w' name = files w name))"

definition confined :: "string list \<Rightarrow> ('a, 'g) prog \<Rightarrow> bool" where
  "confined names m = (\<forall>w. extends names w (outcome_world (m w)))"

text \<open>
  Two programs agree on a set of names when, started with the same state of the
  generator, they return the same value and leave the same state of the generator, and they
  leave the same content in every file of these names and in every file that had the
  same content before; this for any two runs of them that end normally.
\<close>

definition agree :: "string set \<Rightarrow> ('a, 'g) prog \<Rightarrow> ('a, 'g) prog \<Rightarrow> bool" where
  "agree S m m' =
     (\<forall>w v x w' y v'.
        rng w = rng v \<and> m w = Inr (x, w') \<and> m' v = Inr (y, v') \<longrightarrow>
        x = y \<and> rng w' = rng v' \<and>
        (\<forall>name. name \<in> S \<or> files w name = files v name \<longrightarrow> files w' name = files v' name))"

section \<open>Properties of the rendering\<close>

lemma hex_digit_lower: "d < 16 \<Longrightarrow> lower_hex (hex_digit d)"
  unfolding lower_hex_def hex_digit_def by (rule nth_mem) simp

lemma lower_hex_zero: "lower_hex (CHR ''0'')"
  by (simp add: lower_hex_def)

lemma hex_value_digit: "d < 16 \<Longrightarrow> hex_value (hex_digit d) = Some d"
proof -
  assume "d < 16"
  then have "d = 0 \<or> d = 1 \<or> d = 2 \<or> d = 3 \<or> d = 4 \<or> d = 5 \<or> d = 6 \<or> d = 7 \<or>
      d = 8 \<or> d = 9 \<or> d = 10 \<or> d = 11 \<or> d = 12 \<or> d = 13 \<or> d = 14 \<or> d = 15"
    by arith
  then show ?thesis
    by (auto simp: hex_value_def hex_digit_def)
qed

lemma hex_digits_lower: "list_all lower_hex (hex_digits n)"
proof (induction n rule: hex_digits.induct)
  case (1 n)
  show ?case
  proof (cases "n < 16")
    case True
    then show ?thesis by (simp add: hex_digits.simps [of n] hex_digit_lower)
  next
    case False
    with 1 show ?thesis by (simp add: hex_digits.simps [of n] hex_digit_lower)
  qed
qed

lemma hex_digits_length: "n < 16 ^ Suc k \<Longrightarrow> length (hex_digits n) \<le> Suc k"
proof (induction k arbitrary: n)
  case 0
  then show ?case by (simp add: hex_digits.simps [of n])
next
  case (Suc k)
  show ?case
  proof (cases "n < 16")
    case True
    then show ?thesis by (simp add: hex_digits.simps [of n])
  next
    case False
    from Suc.prems have "n div 16 < 16 ^ Suc k"
      by (simp add: less_mult_imp_div_less mult.commute)
    from Suc.IH [OF this] False show ?thesis by (simp add: hex_digits.simps [of n])
  qed
qed

lemma read_hex_nat_append:
  "read_hex_nat acc (s @ r) =
     (case read_hex_nat acc s of None \<Rightarrow> None | Some a \<Rightarrow> read_hex_nat a r)"
  by (induction s arbitrary: acc) (simp_all split: option.splits)

lemma read_hex_nat_digits: "read_hex_nat 0 (hex_digits n) = Some n"
proof (induction n rule: hex_digits.induct)
  case (1 n)
  show ?case
  proof (cases "n < 16")
    case True
    then show ?thesis
      by (simp add: hex_digits.simps [of n] hex_value_digit)
  next
    case False
    with 1 show ?thesis
      by (simp add: hex_digits.simps [of n] read_hex_nat_append hex_value_digit)
  qed
qed

lemma read_hex_nat_zeros: "read_hex_nat 0 (replicate k (CHR ''0'')) = Some 0"
  by (induction k) (simp_all add: hex_value_def)

lemma read_hex_nat_zfill: "read_hex_nat 0 (zfill k s) = read_hex_nat 0 s"
  by (simp add: zfill_def read_hex_nat_append read_hex_nat_zeros)

lemma lower_hex_not_minus: "lower_hex c \<Longrightarrow> c \<noteq> CHR ''-''"
  by (auto simp: lower_hex_def)

lemma lower_hex_not_newline: "lower_hex c \<Longrightarrow> c \<noteq> newline"
  by (auto simp: lower_hex_def newline_def)

lemma zfill_lower: "list_all lower_hex s \<Longrightarrow> list_all lower_hex (zfill k s)"
  by (auto simp: zfill_def list_all_iff lower_hex_zero)

lemma hex_digits_nonempty: "hex_digits n \<noteq> []"
  by (subst hex_digits.simps) simp

lemma read_hex_format: "read_hex (format_08x n) = Some n"
proof (cases "n < 0")
  case True
  have "zfill 7 (hex_digits (nat (- n))) \<noteq> []"
    by (simp add: zfill_def hex_digits_nonempty)
  with True show ?thesis
    by (simp add: read_hex_def format_08x_def read_hex_nat_zfill read_hex_nat_digits)
next
  case False
  have l: "list_all lower_hex (zfill 8 (hex_digits (nat n)))"
    by (rule zfill_lower [OF hex_digits_lower])
  have ne: "zfill 8 (hex_digits (nat n)) \<noteq> []"
    by (simp add: zfill_def hex_digits_nonempty)
  then obtain c cs where cs: "zfill 8 (hex_digits (nat n)) = c # cs"
    by (cases "zfill 8 (hex_digits (nat n))") auto
  with l have "c \<noteq> CHR ''-''" by (auto dest: lower_hex_not_minus)
  with cs False show ?thesis
    using read_hex_nat_zfill [of 8 "hex_digits (nat n)"]
    by (simp add: read_hex_def format_08x_def read_hex_nat_digits)
qed

lemma format_no_newline: "newline \<notin> set (format_08x n)"
proof -
  have "list_all lower_hex (zfill k (hex_digits m))" for k m
    by (rule zfill_lower [OF hex_digits_lower])
  then have "newline \<notin> set (zfill k (hex_digits m))" for k m
    by (metis list_all_iff lower_hex_not_newline)
  then show ?thesis
    by (simp add: format_08x_def newline_def)
qed

lemma format_lower:
  "0 \<le> n \<Longrightarrow> list_all lower_hex (format_08x n)"
  by (simp add: format_08x_def zfill_lower hex_digits_lower)

lemma format_length:
  assumes "0 \<le> n" "n < 2 ^ 32"
  shows "length (format_08x n) = 8"
proof -
  from assms have "nat n < 16 ^ Suc 7" by simp
  then have "length (hex_digits (nat n)) \<le> 8" 
    using hex_digits_length [of "nat n" 7] by simp
  with assms show ?thesis by (simp add: format_08x_def zfill_def)
qed

lemma split_lines_line:
  "newline \<notin> set l \<Longrightarrow> split_lines rest = (ls, r) \<Longrightarrow>
   split_lines (l @ newline # rest) = (l # ls, r)"
  by (induction l) auto

lemma split_lines_concat:
  "\<forall>l \<in> set ls. newline \<notin> set l \<Longrightarrow>
   split_lines (concat (map (\<lambda>l. l @ [newline]) ls)) = (ls, [])"
proof (induction ls)
  case Nil
  then show ?case by simp
next
  case (Cons l ls)
  then show ?case using split_lines_line [of l _ ls "[]"] by simp
qed

section \<open>Properties of the effects\<close>

lemma bnd_Inr_iff:
  "bnd m f w = Inr (y, w') \<longleftrightarrow> (\<exists>x w1. m w = Inr (x, w1) \<and> f x w1 = Inr (y, w'))"
  by (auto simp: bnd_def split: sum.splits)

lemma bnd_Inl_iff:
  "bnd m f w = Inl ew \<longleftrightarrow> m w = Inl ew \<or> (\<exists>x w1. m w = Inr (x, w1) \<and> f x w1 = Inl ew)"
  by (auto simp: bnd_def split: sum.splits)

lemma ret_iff [simp]: "ret x w = Inr (y, w') \<longleftrightarrow> y = x \<and> w' = w"
  by (auto simp: ret_def)

lemma ret_not_Inl [simp]: "ret x w \<noteq> Inl ew"
  by (simp add: ret_def)

lemma list_comp_length:
  "list_comp n m w = Inr (xs, w') \<Longrightarrow> length xs = n"
proof (induction n arbitrary: w xs)
  case 0
  then show ?case by simp
next
  case (Suc n)
  then show ?case by (auto simp: bnd_Inr_iff)
qed

lemma list_comp_all:
  assumes "\<And>v x v'. m v = Inr (x, v') \<Longrightarrow> P x"
  shows "list_comp n m w = Inr (xs, w') \<Longrightarrow> list_all P xs"
proof (induction n arbitrary: w xs)
  case 0
  then show ?case by simp
next
  case (Suc n)
  then show ?case using assms by (auto simp: bnd_Inr_iff)
qed

lemma quiet_Inr:
  "quiet m \<Longrightarrow> m w = Inr (x, w') \<Longrightarrow> files w' = files w \<and> trace w' = trace w"
  unfolding quiet_def outcome_world_def by (drule spec [of _ w]) simp

lemma quiet_Inl:
  "quiet m \<Longrightarrow> m w = Inl (e, w') \<Longrightarrow> files w' = files w \<and> trace w' = trace w \<and> e = IndexError"
  unfolding quiet_def outcome_world_def by (drule spec [of _ w]) simp

lemma quietI:
  assumes "\<And>w x w'. m w = Inr (x, w') \<Longrightarrow> files w' = files w \<and> trace w' = trace w"
    and "\<And>w e w'. m w = Inl (e, w') \<Longrightarrow> files w' = files w \<and> trace w' = trace w \<and> e = IndexError"
  shows "quiet m"
  unfolding quiet_def outcome_world_def
  using assms by (auto split: sum.splits prod.splits)

lemma quiet_ret: "quiet (ret x)"
  by (rule quietI) simp_all

lemma quiet_bnd:
  assumes "quiet m" and "\<And>x. quiet (f x)"
  shows "quiet (bnd m f)"
proof (rule quietI)
  fix w x w'
  assume "bnd m f w = Inr (x, w')"
  then obtain y w1 where "m w = Inr (y, w1)" "f y w1 = Inr (x, w')"
    by (auto simp: bnd_Inr_iff)
  with assms show "files w' = files w \<and> trace w' = trace w"
    by (metis quiet_Inr)
next
  fix w e w'
  assume "bnd m f w = Inl (e, w')"
  then consider "m w = Inl (e, w')" | y w1 where "m w = Inr (y, w1)" "f y w1 = Inl (e, w')"
    by (auto simp: bnd_Inl_iff)
  then show "files w' = files w \<and> trace w' = trace w \<and> e = IndexError"
  proof cases
    case 1
    with assms show ?thesis by (metis quiet_Inl)
  next
    case 2
    with assms show ?thesis by (metis quiet_Inl quiet_Inr)
  qed
qed

lemma quiet_getrandbits: "quiet (random_getrandbits rt k)"
  by (rule quietI) (auto simp: random_getrandbits_def split: prod.splits)

lemma quiet_randint: "quiet (random_randint rt a b)"
  by (rule quietI) (auto simp: random_randint_def split: prod.splits)

lemma quiet_py_index: "quiet (py_index xs i)"
  by (rule quietI) (auto simp: py_index_def split: if_splits)

lemma quiet_list_comp: "quiet m \<Longrightarrow> quiet (list_comp n m)"
  by (induction n) (simp_all add: quiet_ret quiet_bnd)

lemma quiet_draw_pool: "quiet (draw_pool rt)"
  by (simp add: draw_pool_def quiet_list_comp quiet_getrandbits)

lemma quiet_resample: "quiet (resample rt pool)"
  by (simp add: resample_def quiet_list_comp quiet_bnd quiet_randint quiet_py_index)

lemma quiet_gapn_draws:
  "quiet (list_comp n (bnd (random_getrandbits rt 32) (\<lambda>x. ret (x mod 32))))"
  by (simp add: quiet_list_comp quiet_bnd quiet_getrandbits quiet_ret)

subsection \<open>The blocks that write a file\<close>

lemma perform_Inr:
  "perform rt ev effect w = Inr (u, w') \<longleftrightarrow>
     \<not> io_fails rt (trace w) ev \<and> w' = (effect w)\<lparr>trace := trace w @ [Performed ev]\<rparr>"
  by (auto simp: perform_def)

lemma perform_Inl:
  "perform rt ev effect w = Inl (e, w') \<longleftrightarrow>
     io_fails rt (trace w) ev \<and> e = OSError ev \<and> w' = w\<lparr>trace := trace w @ [Refused ev]\<rparr>"
  by (auto simp: perform_def)

lemma write_loop_Inr:
  "for_each numbers (\<lambda>number. file_write rt name (format_08x number @ [newline])) w = Inr (u, w')
   \<Longrightarrow> files w name = Some old
   \<Longrightarrow> rng w' = rng w \<and> files w' = (files w)(name \<mapsto> old @ rendered numbers) \<and>
       trace w' = trace w @ writes name numbers"
proof (induction numbers arbitrary: w old)
  case Nil
  then show ?case by (auto simp: rendered_def writes_def)
next
  case (Cons n ns)
  from Cons.prems(1) obtain w1 where
    w1: "file_write rt name (format_08x n @ [newline]) w = Inr ((), w1)"
    and rest: "for_each ns (\<lambda>number. file_write rt name (format_08x number @ [newline])) w1 = Inr (u, w')"
    by (auto simp: bnd_Inr_iff)
  from w1 Cons.prems(2) have
    a: "rng w1 = rng w" "files w1 = (files w)(name \<mapsto> old @ format_08x n @ [newline])"
       "trace w1 = trace w @ [Performed (Write name (format_08x n @ [newline]))]"
    by (auto simp: file_write_def perform_Inr)
  from a(2) have "files w1 name = Some (old @ format_08x n @ [newline])" by simp
  from Cons.IH [OF rest this] a show ?case
    by (auto simp: rendered_def writes_def)
qed

lemma write_numbers_Inr:
  assumes "write_numbers rt name numbers w = Inr (u, w')"
  shows "rng w' = rng w \<and> files w' = (files w)(name \<mapsto> rendered numbers) \<and>
         trace w' = trace w @ block name numbers"
proof -
  from assms obtain w1 w2 where
    o: "file_open rt name w = Inr ((), w1)"
    and b: "for_each numbers (\<lambda>number. file_write rt name (format_08x number @ [newline])) w1 = Inr ((), w2)"
    and c: "file_close rt name w2 = Inr (u, w')"
    by (auto simp: write_numbers_def with_open_def split: sum.splits prod.splits)
  from o have w1: "rng w1 = rng w" "files w1 = (files w)(name \<mapsto> [])"
    "trace w1 = trace w @ [Performed (Open name)]"
    by (auto simp: file_open_def perform_Inr)
  from w1(2) have "files w1 name = Some []" by simp
  from write_loop_Inr [OF b this] have w2: "rng w2 = rng w1"
    "files w2 = (files w1)(name \<mapsto> rendered numbers)" "trace w2 = trace w1 @ writes name numbers"
    by simp_all
  from c have w': "rng w' = rng w2" "files w' = files w2" "trace w' = trace w2 @ [Performed (Close name)]"
    by (auto simp: file_close_def perform_Inr)
  from w1 w2 w' show ?thesis by (simp add: block_def)
qed

subsection \<open>The three phases of a run that ends normally\<close>

lemma list_comp_map:
  "list_comp n (bnd m (\<lambda>x. ret (f x))) w = Inr (ys, w') \<Longrightarrow>
   \<exists>xs. list_comp n m w = Inr (xs, w') \<and> ys = map f xs"
proof (induction n arbitrary: w ys)
  case 0
  then show ?case by simp
next
  case (Suc n)
  from Suc.prems obtain x w1 zs where
    x: "m w = Inr (x, w1)"
    and zs: "list_comp n (bnd m (\<lambda>x. ret (f x))) w1 = Inr (zs, w')"
    and ys: "ys = f x # zs"
    by (auto simp: bnd_Inr_iff)
  from Suc.IH [OF zs] obtain xs where "list_comp n m w1 = Inr (xs, w')" "zs = map f xs"
    by blast
  with x ys show ?case by (auto simp: bnd_Inr_iff)
qed

lemma head_info_Inr:
  assumes "head_info rt w = Inr (u, w1)"
  shows "\<exists>pool wp nums wn.
           draw_pool rt w = Inr (pool, wp) \<and> resample rt pool wp = Inr (nums, wn) \<and>
           length pool = 64 \<and> length nums = 2048 \<and>
           files w1 = (files w)(''head_info.txt'' \<mapsto> rendered nums) \<and>
           trace w1 = trace w @ block ''head_info.txt'' nums"
proof -
  from assms obtain pool wp nums wn where
    p: "draw_pool rt w = Inr (pool, wp)"
    and r: "resample rt pool wp = Inr (nums, wn)"
    and wr: "write_numbers rt ''head_info.txt'' nums wn = Inr (u, w1)"
    by (auto simp: head_info_def bnd_Inr_iff)
  from p have lp: "length pool = 64"
    by (auto simp: draw_pool_def dest: list_comp_length)
  from r have ln: "length nums = 2048"
    by (auto simp: resample_def dest: list_comp_length)
  from quiet_Inr [OF quiet_draw_pool p] quiet_Inr [OF quiet_resample r]
  have "files wn = files w" "trace wn = trace w" by simp_all
  with write_numbers_Inr [OF wr] p r lp ln show ?thesis by auto
qed

lemma buff_addr_Inr:
  assumes "buff_addr rt w = Inr (u, w1)"
  shows "\<exists>nums wn.
           list_comp 2048 (random_getrandbits rt 32) w = Inr (nums, wn) \<and>
           length nums = 2048 \<and>
           files w1 = (files w)(''buff_addr.txt'' \<mapsto> rendered nums) \<and>
           trace w1 = trace w @ block ''buff_addr.txt'' nums"
proof -
  from assms obtain nums wn where
    r: "list_comp 2048 (random_getrandbits rt 32) w = Inr (nums, wn)"
    and wr: "write_numbers rt ''buff_addr.txt'' nums wn = Inr (u, w1)"
    by (auto simp: buff_addr_def bnd_Inr_iff)
  from r have ln: "length nums = 2048"
    by (rule list_comp_length)
  from quiet_Inr [OF quiet_list_comp [OF quiet_getrandbits] r]
  have "files wn = files w" "trace wn = trace w" by simp_all
  with write_numbers_Inr [OF wr] r ln show ?thesis by auto
qed

lemma buff_gapn_Inr:
  assumes "buff_gapn rt w = Inr (u, w1)"
  shows "\<exists>draws wn.
           list_comp 2048 (random_getrandbits rt 32) w = Inr (draws, wn) \<and>
           length draws = 2048 \<and>
           files w1 = (files w)(''buff_gapn.txt'' \<mapsto> rendered (map (\<lambda>x. x mod 32) draws)) \<and>
           trace w1 = trace w @ block ''buff_gapn.txt'' (map (\<lambda>x. x mod 32) draws)"
proof -
  from assms obtain nums wn where
    r: "list_comp 2048 (bnd (random_getrandbits rt 32) (\<lambda>x. ret (x mod 32))) w = Inr (nums, wn)"
    and wr: "write_numbers rt ''buff_gapn.txt'' nums wn = Inr (u, w1)"
    by (auto simp: buff_gapn_def bnd_Inr_iff)
  from list_comp_map [OF r] obtain draws where
    d: "list_comp 2048 (random_getrandbits rt 32) w = Inr (draws, wn)"
    and n: "nums = map (\<lambda>x. x mod 32) draws"
    by blast
  from d have ln: "length draws = 2048"
    by (rule list_comp_length)
  from quiet_Inr [OF quiet_list_comp [OF quiet_getrandbits] d]
  have "files wn = files w" "trace wn = trace w" by simp_all
  with write_numbers_Inr [OF wr] d n ln show ?thesis by auto
qed

lemma testgen_Inr:
  assumes "testgen rt w = Inr (u, w')"
  shows "\<exists>w1 w2 w3.
           head_info rt w = Inr ((), w1) \<and> buff_addr rt w1 = Inr ((), w2) \<and>
           buff_gapn rt w2 = Inr ((), w3) \<and>
           files w' = files w3 \<and> trace w' = trace w3 @ [Performed (Print status_message)]"
  using assms by (auto simp: testgen_def bnd_Inr_iff py_print_def perform_Inr)

lemma testgen_summary:
  assumes "testgen rt w = Inr (u, w')"
  shows "\<exists>pool wp nums wn w1 addrs wa w2 draws wd.
           draw_pool rt w = Inr (pool, wp) \<and> resample rt pool wp = Inr (nums, wn) \<and>
           head_info rt w = Inr ((), w1) \<and>
           list_comp 2048 (random_getrandbits rt 32) w1 = Inr (addrs, wa) \<and>
           buff_addr rt w1 = Inr ((), w2) \<and>
           list_comp 2048 (random_getrandbits rt 32) w2 = Inr (draws, wd) \<and>
           length pool = 64 \<and> length nums = 2048 \<and> length addrs = 2048 \<and> length draws = 2048 \<and>
           files w' = (files w)(''head_info.txt'' \<mapsto> rendered nums,
                                ''buff_addr.txt'' \<mapsto> rendered addrs,
                                ''buff_gapn.txt'' \<mapsto> rendered (map (\<lambda>x. x mod 32) draws)) \<and>
           trace w' = trace w @ block ''head_info.txt'' nums @ block ''buff_addr.txt'' addrs @
                      block ''buff_gapn.txt'' (map (\<lambda>x. x mod 32) draws) @
                      [Performed (Print status_message)]"
proof -
  from testgen_Inr [OF assms] obtain w1 w2 w3 where
    h: "head_info rt w = Inr ((), w1)" and a: "buff_addr rt w1 = Inr ((), w2)"
    and g: "buff_gapn rt w2 = Inr ((), w3)"
    and f: "files w' = files w3" "trace w' = trace w3 @ [Performed (Print status_message)]"
    by blast
  from head_info_Inr [OF h] obtain pool wp nums wn where
    1: "draw_pool rt w = Inr (pool, wp)" "resample rt pool wp = Inr (nums, wn)"
       "length pool = 64" "length nums = 2048"
       "files w1 = (files w)(''head_info.txt'' \<mapsto> rendered nums)"
       "trace w1 = trace w @ block ''head_info.txt'' nums"
    by blast
  from buff_addr_Inr [OF a] obtain addrs wa where
    2: "list_comp 2048 (random_getrandbits rt 32) w1 = Inr (addrs, wa)"
       "length addrs = 2048"
       "files w2 = (files w1)(''buff_addr.txt'' \<mapsto> rendered addrs)"
       "trace w2 = trace w1 @ block ''buff_addr.txt'' addrs"
    by blast
  from buff_gapn_Inr [OF g] obtain draws wd where
    3: "list_comp 2048 (random_getrandbits rt 32) w2 = Inr (draws, wd)"
       "length draws = 2048"
       "files w3 = (files w2)(''buff_gapn.txt'' \<mapsto> rendered (map (\<lambda>x. x mod 32) draws))"
       "trace w3 = trace w2 @ block ''buff_gapn.txt'' (map (\<lambda>x. x mod 32) draws)"
    by blast
  have fs: "files w' = (files w)(''head_info.txt'' \<mapsto> rendered nums,
                                ''buff_addr.txt'' \<mapsto> rendered addrs,
                                ''buff_gapn.txt'' \<mapsto> rendered (map (\<lambda>x. x mod 32) draws))"
    using f(1) 1(5) 2(3) 3(3) by simp
  have tr: "trace w' = trace w @ block ''head_info.txt'' nums @ block ''buff_addr.txt'' addrs @
                      block ''buff_gapn.txt'' (map (\<lambda>x. x mod 32) draws) @
                      [Performed (Print status_message)]"
    using f(2) 1(6) 2(4) 3(4) by simp
  from h a 1(1-4) 2(1,2) 3(1,2) fs tr show ?thesis by blast
qed

lemma split_lines_rendered: "split_lines (rendered numbers) = (map format_08x numbers, [])"
proof -
  have "\<forall>l \<in> set (map format_08x numbers). newline \<notin> set l"
    by (simp add: format_no_newline)
  from split_lines_concat [OF this] show ?thesis
    by (simp add: rendered_def comp_def)
qed

subsection \<open>Runs that end normally exist\<close>

lemma list_comp_total:
  assumes "\<And>v. \<exists>x v'. m v = Inr (x, v')"
  shows "\<exists>xs w'. list_comp n m w = Inr (xs, w')"
proof (induction n arbitrary: w)
  case 0
  show ?case by simp
next
  case (Suc n)
  from assms obtain x w1 where "m w = Inr (x, w1)" by blast
  moreover from Suc obtain xs w' where "list_comp n m w1 = Inr (xs, w')" by blast
  ultimately show ?case by (auto simp: bnd_Inr_iff)
qed

lemma getrandbits_total: "\<exists>x w'. random_getrandbits rt k w = Inr (x, w')"
  by (simp add: random_getrandbits_def split: prod.splits)

lemma draw_pool_total: "\<exists>pool w'. draw_pool rt w = Inr (pool, w')"
  unfolding draw_pool_def by (rule list_comp_total) (rule getrandbits_total)

lemma index_total:
  assumes "randint_ok rt" "length pool = 64"
  shows "\<exists>x w'. bnd (random_randint rt 0 63) (py_index pool) w = Inr (x, w')"
proof -
  obtain i g where ig: "randint rt 0 63 (rng w) = (i, g)" by (cases "randint rt 0 63 (rng w)")
  with assms(1) have "0 \<le> i \<and> i \<le> 63"
    unfolding randint_ok_def by (metis fst_conv)
  with ig assms(2) show ?thesis
    by (simp add: bnd_Inr_iff random_randint_def py_index_def)
qed

lemma resample_total:
  assumes "randint_ok rt" "length pool = 64"
  shows "\<exists>nums w'. resample rt pool w = Inr (nums, w')"
  unfolding resample_def by (rule list_comp_total) (rule index_total [OF assms])

lemma write_loop_total:
  assumes "\<And>h e. \<not> io_fails rt h e"
  shows "\<exists>w'. for_each numbers (\<lambda>number. file_write rt name (format_08x number @ [newline])) w
              = Inr ((), w')"
proof (induction numbers arbitrary: w)
  case Nil
  show ?case by simp
next
  case (Cons n ns)
  from assms obtain w1 where "file_write rt name (format_08x n @ [newline]) w = Inr ((), w1)"
    by (simp add: file_write_def perform_def)
  with Cons [of w1] show ?case by (auto simp: bnd_Inr_iff)
qed

lemma write_numbers_total:
  assumes "\<And>h e. \<not> io_fails rt h e"
  shows "\<exists>w'. write_numbers rt name numbers w = Inr ((), w')"
proof -
  from assms obtain w1 where o: "file_open rt name w = Inr ((), w1)"
    by (simp add: file_open_def perform_def)
  from write_loop_total [OF assms] obtain w2 where
    b: "for_each numbers (\<lambda>number. file_write rt name (format_08x number @ [newline])) w1
         = Inr ((), w2)" by blast
  from assms obtain w3 where c: "file_close rt name w2 = Inr ((), w3)"
    by (simp add: file_close_def perform_def)
  from o b c show ?thesis by (simp add: write_numbers_def with_open_def)
qed

lemma testgen_total:
  assumes ri: "randint_ok rt" and io: "\<And>h e. \<not> io_fails rt h e"
  shows "\<exists>w'. testgen rt w = Inr ((), w')"
proof -
  obtain pool wp where p: "draw_pool rt w = Inr (pool, wp)"
    using draw_pool_total by blast
  then have "length pool = 64" by (auto simp: draw_pool_def dest: list_comp_length)
  from resample_total [OF ri this] obtain nums wn where r: "resample rt pool wp = Inr (nums, wn)"
    by blast
  from write_numbers_total [OF io] obtain w1 where
    "write_numbers rt ''head_info.txt'' nums wn = Inr ((), w1)" by blast
  with p r have h: "head_info rt w = Inr ((), w1)"
    by (auto simp: head_info_def bnd_Inr_iff)
  obtain addrs wa where a: "list_comp 2048 (random_getrandbits rt 32) w1 = Inr (addrs, wa)"
    using list_comp_total [where m = "random_getrandbits rt 32", OF getrandbits_total] by blast
  from write_numbers_total [OF io] obtain w2 where
    "write_numbers rt ''buff_addr.txt'' addrs wa = Inr ((), w2)" by blast
  with a have ba: "buff_addr rt w1 = Inr ((), w2)"
    by (auto simp: buff_addr_def bnd_Inr_iff)
  have "\<exists>x v'. bnd (random_getrandbits rt 32) (\<lambda>x. ret (x mod 32)) v = Inr (x, v')" for v
    using getrandbits_total [of rt 32 v] by (auto simp: bnd_Inr_iff)
  from list_comp_total [where m = "bnd (random_getrandbits rt 32) (\<lambda>x. ret (x mod 32))", OF this]
  obtain gaps wg where
    g: "list_comp 2048 (bnd (random_getrandbits rt 32) (\<lambda>x. ret (x mod 32))) w2 = Inr (gaps, wg)"
    by blast
  from write_numbers_total [OF io] obtain w3 where
    "write_numbers rt ''buff_gapn.txt'' gaps wg = Inr ((), w3)" by blast
  with g have bg: "buff_gapn rt w2 = Inr ((), w3)"
    by (auto simp: buff_gapn_def bnd_Inr_iff)
  from io obtain w' where "py_print rt status_message w3 = Inr ((), w')"
    by (simp add: py_print_def perform_def)
  with h ba bg show ?thesis by (auto simp: testgen_def bnd_Inr_iff)
qed

lemma counter_rt_randint_ok: "randint_ok counter_rt"
proof -
  have "int g mod 64 \<le> 63" for g :: nat
    using pos_mod_bound [of 64 "int g"] by linarith
  then show ?thesis by (simp add: randint_ok_def counter_rt_def)
qed

lemma counter_rt_getrandbits_ok: "getrandbits_ok counter_rt"
  by (simp add: getrandbits_ok_def counter_rt_def)

lemma counter_rt_io: "\<not> io_fails counter_rt h e"
  by (simp add: counter_rt_def)

lemma counter_rt_run: "\<exists>w'. testgen counter_rt w = Inr ((), w')"
  by (rule testgen_total [OF counter_rt_randint_ok counter_rt_io])

subsection \<open>The values that are written\<close>

lemma getrandbits_range:
  assumes "getrandbits_ok rt" "random_getrandbits rt 32 v = Inr (x, v')"
  shows "0 \<le> x \<and> x < 2 ^ 32"
proof -
  from assms(2) have "x = fst (getrandbits rt 32 (rng v))"
    by (auto simp: random_getrandbits_def split: prod.splits)
  with assms(1) show ?thesis by (simp add: getrandbits_ok_def)
qed

lemma draws_range:
  assumes "getrandbits_ok rt" "list_comp n (random_getrandbits rt 32) v = Inr (xs, v')"
  shows "list_all (\<lambda>x. 0 \<le> x \<and> x < 2 ^ 32) xs"
  by (rule list_comp_all [OF _ assms(2)]) (rule getrandbits_range [OF assms(1)])

lemma index_result:
  assumes "bnd (random_randint rt 0 63) (py_index pool) v = Inr (x, v')"
  shows "\<exists>i < length pool. x = pool ! i"
proof -
  from assms obtain i v1 where "py_index pool i v1 = Inr (x, v')"
    by (auto simp: bnd_Inr_iff)
  then consider "0 \<le> i" "i < int (length pool)" "x = pool ! nat i"
    | "- int (length pool) \<le> i" "i < 0" "x = pool ! nat (int (length pool) + i)"
    by (auto simp: py_index_def split: if_splits)
  then show ?thesis
  proof cases
    case 1
    then have "nat i < length pool" by linarith
    with 1 show ?thesis by blast
  next
    case 2
    then have "nat (int (length pool) + i) < length pool" by linarith
    with 2 show ?thesis by blast
  qed
qed

lemma resample_from_pool:
  assumes "resample rt pool v = Inr (nums, v')"
  shows "list_all (\<lambda>x. \<exists>i < length pool. x = pool ! i) nums"
  using assms unfolding resample_def
  by (rule list_comp_all [rotated]) (rule index_result)

lemma format_line:
  assumes "0 \<le> n" "n < 2 ^ 32"
  shows "length (format_08x n) = 8 \<and> list_all lower_hex (format_08x n)"
  using assms by (simp add: format_length format_lower)

lemma list_all_map_format:
  "list_all P (map format_08x xs) = list_all (\<lambda>x. P (format_08x x)) xs"
  by (simp add: list_all_iff)

lemma list_all_mono:
  "list_all P xs \<Longrightarrow> (\<And>x. P x \<Longrightarrow> Q x) \<Longrightarrow> list_all Q xs"
  by (auto simp: list_all_iff)

lemma file_lines_rendered:
  "files w name = Some (rendered numbers) \<Longrightarrow>
   file_lines w name = Some (map format_08x numbers, [])"
  by (simp add: file_lines_def split_lines_rendered)

lemma read_hex_lines: "map read_hex (map format_08x xs) = map Some xs"
  by (simp add: read_hex_format comp_def)

subsection \<open>Runs that end by an exception\<close>

lemma orderly_Inr:
  "orderly A m \<Longrightarrow> m w = Inr (x, w') \<Longrightarrow> \<exists>evs. trace w' = trace w @ map Performed evs"
  unfolding orderly_def by (drule spec [of _ w]) simp

lemma orderly_Inl:
  "orderly A m \<Longrightarrow> m w = Inl (err, w') \<Longrightarrow>
   \<exists>evs post. trace w' = trace w @ map Performed evs @ post \<and> A err post"
  unfolding orderly_def by (drule spec [of _ w]) simp

lemma orderlyI:
  assumes "\<And>w x w'. m w = Inr (x, w') \<Longrightarrow> \<exists>evs. trace w' = trace w @ map Performed evs"
    and "\<And>w err w'. m w = Inl (err, w') \<Longrightarrow>
           \<exists>evs post. trace w' = trace w @ map Performed evs @ post \<and> A err post"
  shows "orderly A m"
  unfolding orderly_def using assms by (auto split: sum.splits prod.splits)

lemma orderly_mono:
  assumes "orderly A m" and "\<And>err post. A err post \<Longrightarrow> B err post"
  shows "orderly B m"
proof (rule orderlyI)
  fix w x w' assume "m w = Inr (x, w')"
  from orderly_Inr [OF assms(1) this] show "\<exists>evs. trace w' = trace w @ map Performed evs" .
next
  fix w err w' assume "m w = Inl (err, w')"
  from orderly_Inl [OF assms(1) this] assms(2)
  show "\<exists>evs post. trace w' = trace w @ map Performed evs @ post \<and> B err post" by blast
qed

lemma orderly_ret: "orderly A (ret x)"
proof (rule orderlyI)
  fix w y w' assume "ret x w = Inr (y, w')"
  then have "trace w' = trace w @ map Performed []" by simp
  then show "\<exists>evs. trace w' = trace w @ map Performed evs" ..
qed simp

lemma orderly_perform: "orderly refusal (perform rt ev effect)"
proof (rule orderlyI)
  fix w x w' assume "perform rt ev effect w = Inr (x, w')"
  then have "trace w' = trace w @ map Performed [ev]" by (auto simp: perform_Inr)
  then show "\<exists>evs. trace w' = trace w @ map Performed evs" ..
next
  fix w err w' assume "perform rt ev effect w = Inl (err, w')"
  then have "trace w' = trace w @ map Performed [] @ [Refused ev] \<and> refusal err [Refused ev]"
    by (auto simp: perform_Inl)
  then show "\<exists>evs post. trace w' = trace w @ map Performed evs @ post \<and> refusal err post"
    by blast
qed

lemma orderly_bnd:
  assumes "orderly A m" and "\<And>x. orderly A (f x)"
  shows "orderly A (bnd m f)"
proof (rule orderlyI)
  fix w y w' assume "bnd m f w = Inr (y, w')"
  then obtain x w1 where 1: "m w = Inr (x, w1)" and 2: "f x w1 = Inr (y, w')"
    by (auto simp: bnd_Inr_iff)
  from orderly_Inr [OF assms(1) 1] obtain evs1 where "trace w1 = trace w @ map Performed evs1" ..
  moreover from orderly_Inr [OF assms(2) 2] obtain evs2 where
    "trace w' = trace w1 @ map Performed evs2" ..
  ultimately have "trace w' = trace w @ map Performed (evs1 @ evs2)" by simp
  then show "\<exists>evs. trace w' = trace w @ map Performed evs" ..
next
  fix w err w' assume "bnd m f w = Inl (err, w')"
  then consider "m w = Inl (err, w')"
    | x w1 where "m w = Inr (x, w1)" "f x w1 = Inl (err, w')"
    by (auto simp: bnd_Inl_iff)
  then show "\<exists>evs post. trace w' = trace w @ map Performed evs @ post \<and> A err post"
  proof cases
    case 1
    from orderly_Inl [OF assms(1) this] show ?thesis .
  next
    case 2
    from orderly_Inr [OF assms(1) 2(1)] obtain evs1 where
      "trace w1 = trace w @ map Performed evs1" ..
    moreover from orderly_Inl [OF assms(2) 2(2)] obtain evs2 post where
      "trace w' = trace w1 @ map Performed evs2 @ post" "A err post" by blast
    ultimately have "trace w' = trace w @ map Performed (evs1 @ evs2) @ post \<and> A err post"
      by simp
    then show ?thesis by blast
  qed
qed

lemma orderly_for_each:
  assumes "\<And>x. orderly A (body x)"
  shows "orderly A (for_each xs body)"
  by (induction xs) (simp_all add: orderly_ret orderly_bnd assms)

lemma orderly_quiet:
  assumes "quiet m" and "\<And>w. \<exists>x w'. m w = Inr (x, w')"
  shows "orderly A m"
proof (rule orderlyI)
  fix w x w' assume "m w = Inr (x, w')"
  from quiet_Inr [OF assms(1) this] have "trace w' = trace w @ map Performed []" by simp
  then show "\<exists>evs. trace w' = trace w @ map Performed evs" ..
next
  fix w err w' assume "m w = Inl (err, w')"
  with assms(2) [of w] have False by auto
  then show "\<exists>evs post. trace w' = trace w @ map Performed evs @ post \<and> A err post" ..
qed

lemma orderly_with_open:
  assumes "orderly refusal body"
  shows "orderly aftermath (with_open rt name body)"
proof (rule orderlyI)
  fix w x w' assume "with_open rt name body w = Inr (x, w')"
  then obtain w1 w2 where
    o: "file_open rt name w = Inr ((), w1)" and b: "body w1 = Inr ((), w2)"
    and c: "file_close rt name w2 = Inr (x, w')"
    by (auto simp: with_open_def split: sum.splits prod.splits)
  from o have "trace w1 = trace w @ map Performed [Open name]"
    by (auto simp: file_open_def perform_Inr)
  moreover from orderly_Inr [OF assms b] obtain evs where
    "trace w2 = trace w1 @ map Performed evs" ..
  moreover from c have "trace w' = trace w2 @ map Performed [Close name]"
    by (auto simp: file_close_def perform_Inr)
  ultimately have "trace w' = trace w @ map Performed (Open name # evs @ [Close name])"
    by simp
  then show "\<exists>evs. trace w' = trace w @ map Performed evs" ..
next
  fix w err w' assume a: "with_open rt name body w = Inl (err, w')"
  show "\<exists>evs post. trace w' = trace w @ map Performed evs @ post \<and> aftermath err post"
  proof (cases "file_open rt name w")
    case (Inl ew)
    with a have "file_open rt name w = Inl (err, w')" by (simp add: with_open_def)
    then have "trace w' = trace w @ map Performed [] @ [Refused (Open name)]"
      "aftermath err [Refused (Open name)]"
      by (auto simp: file_open_def perform_Inl)
    then show ?thesis by blast
  next
    case (Inr r)
    then obtain w1 where o: "file_open rt name w = Inr ((), w1)" by (cases r) auto
    then have t1: "trace w1 = trace w @ [Performed (Open name)]"
      by (auto simp: file_open_def perform_Inr)
    show ?thesis
    proof (cases "body w1")
      case (Inr r2)
      then obtain w2 where b: "body w1 = Inr ((), w2)" by (cases r2) auto
      with a o have c: "file_close rt name w2 = Inl (err, w')" by (simp add: with_open_def)
      from orderly_Inr [OF assms b] obtain evs where
        "trace w2 = trace w1 @ map Performed evs" ..
      with t1 c have "trace w' = trace w @ map Performed (Open name # evs) @ [Refused (Close name)]"
        "aftermath err [Refused (Close name)]"
        by (auto simp: file_close_def perform_Inl)
      then show ?thesis by blast
    next
      case (Inl ew)
      then obtain e w2 where b: "body w1 = Inl (e, w2)" by (cases ew) auto
      from orderly_Inl [OF assms b] obtain evs post where
        t2: "trace w2 = trace w1 @ map Performed evs @ post" and "refusal e post" by blast
      then obtain ev where p: "post = [Refused ev]" "e = OSError ev"
        by (auto elim: refusal.elims)
      show ?thesis
      proof (cases "io_fails rt (trace w2) (Close name)")
        case True
        with a o b have "err = OSError (Close name)"
          "w' = w2\<lparr>trace := trace w2 @ [Refused (Close name)]\<rparr>"
          by (auto simp: with_open_def file_close_def perform_def)
        with t1 t2 p have
          "trace w' = trace w @ map Performed (Open name # evs) @ [Refused ev, Refused (Close name)]"
          "aftermath err [Refused ev, Refused (Close name)]"
          by auto
        then show ?thesis by blast
      next
        case False
        with a o b have "err = e"
          "w' = w2\<lparr>trace := trace w2 @ [Performed (Close name)]\<rparr>"
          by (auto simp: with_open_def file_close_def perform_def)
        with t1 t2 p have
          "trace w' = trace w @ map Performed (Open name # evs) @ [Refused ev, Performed (Close name)]"
          "aftermath err [Refused ev, Performed (Close name)]"
          by auto
        then show ?thesis by blast
      qed
    qed
  qed
qed

lemma refusal_aftermath: "refusal err post \<Longrightarrow> aftermath err post"
  by (auto elim: refusal.elims)

lemma aftermath_OSError: "aftermath err post \<Longrightarrow> \<exists>ev. err = OSError ev"
  by (auto elim: aftermath.elims)

lemma orderly_file_write: "orderly refusal (file_write rt name data)"
  unfolding file_write_def by (rule orderly_perform)

lemma orderly_write_numbers: "orderly aftermath (write_numbers rt name numbers)"
  unfolding write_numbers_def
  by (rule orderly_with_open) (rule orderly_for_each, rule orderly_file_write)

lemma orderly_buff_addr: "orderly aftermath (buff_addr rt)"
  unfolding buff_addr_def
proof (rule orderly_bnd)
  show "orderly aftermath (list_comp 2048 (random_getrandbits rt 32))"
  proof (rule orderly_quiet)
    show "quiet (list_comp 2048 (random_getrandbits rt 32))"
      by (rule quiet_list_comp [OF quiet_getrandbits])
    show "\<exists>x w'. list_comp 2048 (random_getrandbits rt 32) w = Inr (x, w')" for w
      by (rule list_comp_total) (rule getrandbits_total)
  qed
qed (rule orderly_write_numbers)

lemma orderly_buff_gapn: "orderly aftermath (buff_gapn rt)"
  unfolding buff_gapn_def
proof (rule orderly_bnd)
  have 1: "\<exists>x v'. bnd (random_getrandbits rt 32) (\<lambda>x. ret (x mod 32)) v = Inr (x, v')" for v
    using getrandbits_total [of rt 32 v] by (auto simp: bnd_Inr_iff)
  show "orderly aftermath (list_comp 2048 (bnd (random_getrandbits rt 32) (\<lambda>x. ret (x mod 32))))"
  proof (rule orderly_quiet)
    show "quiet (list_comp 2048 (bnd (random_getrandbits rt 32) (\<lambda>x. ret (x mod 32))))"
      by (rule quiet_gapn_draws)
    show "\<exists>x w'. list_comp 2048 (bnd (random_getrandbits rt 32) (\<lambda>x. ret (x mod 32))) w
            = Inr (x, w')" for w
      by (rule list_comp_total) (rule 1)
  qed
qed (rule orderly_write_numbers)

lemma orderly_py_print: "orderly aftermath (py_print rt msg)"
  unfolding py_print_def by (rule orderly_mono [OF orderly_perform refusal_aftermath])

lemma orderly_rest:
  "orderly aftermath (bnd (buff_addr rt) (\<lambda>_. bnd (buff_gapn rt) (\<lambda>_. py_print rt status_message)))"
proof (rule orderly_bnd [OF orderly_buff_addr])
  show "orderly aftermath (bnd (buff_gapn rt) (\<lambda>_. py_print rt status_message))" for x :: unit
    by (rule orderly_bnd [OF orderly_buff_gapn]) (rule orderly_py_print)
qed

lemma testgen_Inl:
  assumes "testgen rt w = Inl (err, w')"
  shows "(err = IndexError \<and> trace w' = trace w \<and> files w' = files w \<and>
          (\<exists>pool wp. draw_pool rt w = Inr (pool, wp) \<and> resample rt pool wp = Inl (err, w'))) \<or>
         (\<exists>evs post. trace w' = trace w @ map Performed evs @ post \<and> aftermath err post)"
proof -
  let ?rest = "bnd (buff_addr rt) (\<lambda>_. bnd (buff_gapn rt) (\<lambda>_. py_print rt status_message))"
  from assms consider "head_info rt w = Inl (err, w')"
    | u w1 where "head_info rt w = Inr (u, w1)" "?rest w1 = Inl (err, w')"
    by (auto simp: testgen_def bnd_Inl_iff)
  then show ?thesis
  proof cases
    case 2
    from head_info_Inr [OF 2(1)] obtain nums where
      "trace w1 = trace w @ block ''head_info.txt'' nums" by blast
    then have "trace w1 = trace w @ map Performed
        (Open ''head_info.txt'' #
         map (\<lambda>number. Write ''head_info.txt'' (format_08x number @ [newline])) nums @
         [Close ''head_info.txt''])"
      by (simp add: block_def writes_def comp_def)
    moreover from orderly_Inl [OF orderly_rest 2(2)] obtain evs post where
      "trace w' = trace w1 @ map Performed evs @ post" "aftermath err post" by blast
    ultimately have "trace w' = trace w @ map Performed
        ((Open ''head_info.txt'' #
          map (\<lambda>number. Write ''head_info.txt'' (format_08x number @ [newline])) nums @
          [Close ''head_info.txt'']) @ evs) @ post"
      by simp
    with \<open>aftermath err post\<close> show ?thesis by blast
  next
    case 1
    obtain pool wp where p: "draw_pool rt w = Inr (pool, wp)"
      using draw_pool_total by blast
    from quiet_Inr [OF quiet_draw_pool p] have wp: "files wp = files w" "trace wp = trace w"
      by simp_all
    from 1 p consider "resample rt pool wp = Inl (err, w')"
      | nums wn where "resample rt pool wp = Inr (nums, wn)"
          "write_numbers rt ''head_info.txt'' nums wn = Inl (err, w')"
      by (auto simp: head_info_def bnd_Inl_iff)
    then show ?thesis
    proof cases
      case 1
      from quiet_Inl [OF quiet_resample 1] wp p 1 show ?thesis by auto
    next
      case 2
      from quiet_Inr [OF quiet_resample 2(1)] wp have "trace wn = trace w" by simp
      with orderly_Inl [OF orderly_write_numbers 2(2)] show ?thesis by simp
    qed
  qed
qed

lemma block_Performed: "Refused e \<notin> set (block name numbers)"
  by (auto simp: block_def writes_def)

lemma refusing_rt_randint_ok: "randint_ok refusing_rt"
  using counter_rt_randint_ok by (simp add: randint_ok_def refusing_rt_def)

lemma refusing_rt_run:
  "\<exists>w'. testgen refusing_rt w = Inl (OSError (Open ''head_info.txt''), w') \<and>
        trace w' = trace w @ [Refused (Open ''head_info.txt'')]"
proof -
  obtain pool wp where p: "draw_pool refusing_rt w = Inr (pool, wp)"
    using draw_pool_total by blast
  then have "length pool = 64" by (auto simp: draw_pool_def dest: list_comp_length)
  from resample_total [OF refusing_rt_randint_ok this] obtain nums wn where
    r: "resample refusing_rt pool wp = Inr (nums, wn)" by blast
  from quiet_Inr [OF quiet_draw_pool p] quiet_Inr [OF quiet_resample r]
  have t: "trace wn = trace w" by simp
  have "write_numbers refusing_rt ''head_info.txt'' nums wn =
          Inl (OSError (Open ''head_info.txt''),
               wn\<lparr>trace := trace wn @ [Refused (Open ''head_info.txt'')]\<rparr>)"
    by (simp add: write_numbers_def with_open_def file_open_def perform_def refusing_rt_def)
  with p r have "testgen refusing_rt w =
          Inl (OSError (Open ''head_info.txt''),
               wn\<lparr>trace := trace wn @ [Refused (Open ''head_info.txt'')]\<rparr>)"
    by (simp add: testgen_def head_info_def bnd_def)
  with t show ?thesis by simp
qed

subsection \<open>The files that a run touches\<close>

lemma extends_refl: "extends names w w"
  by (simp add: extends_def)

lemma extends_trans:
  assumes "extends names w w1" "extends names w1 w2"
  shows "extends names w w2"
proof -
  from assms obtain n1 n2 where
    "trace w1 = trace w @ n1" "list_all (within names) n1"
    "trace w2 = trace w1 @ n2" "list_all (within names) n2"
    by (auto simp: extends_def)
  then have "trace w2 = trace w @ (n1 @ n2) \<and> list_all (within names) (n1 @ n2)" by simp
  then have "\<exists>new. trace w2 = trace w @ new \<and> list_all (within names) new" ..
  with assms show ?thesis by (simp add: extends_def)
qed

lemma confined_Inr: "confined names m \<Longrightarrow> m w = Inr (x, w') \<Longrightarrow> extends names w w'"
  unfolding confined_def outcome_world_def by (drule spec [of _ w]) simp

lemma confined_Inl: "confined names m \<Longrightarrow> m w = Inl (e, w') \<Longrightarrow> extends names w w'"
  unfolding confined_def outcome_world_def by (drule spec [of _ w]) simp

lemma confinedI:
  assumes "\<And>w x w'. m w = Inr (x, w') \<Longrightarrow> extends names w w'"
    and "\<And>w e w'. m w = Inl (e, w') \<Longrightarrow> extends names w w'"
  shows "confined names m"
  unfolding confined_def outcome_world_def
  using assms by (auto split: sum.splits prod.splits)

lemma confined_ret: "confined names (ret x)"
  by (rule confinedI) (simp_all add: extends_refl)

lemma confined_bnd:
  assumes "confined names m" and "\<And>x. confined names (f x)"
  shows "confined names (bnd m f)"
proof (rule confinedI)
  fix w y w' assume "bnd m f w = Inr (y, w')"
  then obtain x w1 where "m w = Inr (x, w1)" "f x w1 = Inr (y, w')"
    by (auto simp: bnd_Inr_iff)
  with assms show "extends names w w'"
    by (blast intro: extends_trans dest: confined_Inr)
next
  fix w e w' assume "bnd m f w = Inl (e, w')"
  then consider "m w = Inl (e, w')"
    | x w1 where "m w = Inr (x, w1)" "f x w1 = Inl (e, w')"
    by (auto simp: bnd_Inl_iff)
  then show "extends names w w'"
  proof cases
    case 1
    with assms(1) show ?thesis by (rule confined_Inl)
  next
    case 2
    from confined_Inr [OF assms(1) 2(1)] confined_Inl [OF assms(2) 2(2)]
    show ?thesis by (rule extends_trans)
  qed
qed

lemma confined_for_each:
  assumes "\<And>x. confined names (body x)"
  shows "confined names (for_each xs body)"
  by (induction xs) (simp_all add: confined_ret confined_bnd assms)

lemma confined_quiet:
  assumes "quiet m"
  shows "confined names m"
proof (rule confinedI)
  fix w x w' assume "m w = Inr (x, w')"
  from quiet_Inr [OF assms this] show "extends names w w'" by (simp add: extends_def)
next
  fix w e w' assume "m w = Inl (e, w')"
  from quiet_Inl [OF assms this] show "extends names w w'" by (simp add: extends_def)
qed

lemma confined_perform:
  assumes "within names (Performed ev)"
    and "\<And>w name. name \<notin> set names \<Longrightarrow> files (effect w) name = files w name"
  shows "confined names (perform rt ev effect)"
proof (rule confinedI)
  fix w x w' assume "perform rt ev effect w = Inr (x, w')"
  then have "w' = (effect w)\<lparr>trace := trace w @ [Performed ev]\<rparr>" by (simp add: perform_Inr)
  with assms have "trace w' = trace w @ [Performed ev] \<and> list_all (within names) [Performed ev]"
    "\<forall>name. name \<notin> set names \<longrightarrow> files w' name = files w name"
    by simp_all
  then show "extends names w w'" unfolding extends_def by blast
next
  fix w e w' assume "perform rt ev effect w = Inl (e, w')"
  then have "w' = w\<lparr>trace := trace w @ [Refused ev]\<rparr>" by (simp add: perform_Inl)
  with assms(1) have "trace w' = trace w @ [Refused ev] \<and> list_all (within names) [Refused ev]"
    "\<forall>name. name \<notin> set names \<longrightarrow> files w' name = files w name"
    by (simp_all add: within_def)
  then show "extends names w w'" unfolding extends_def by blast
qed

lemma confined_file_open: "name \<in> set names \<Longrightarrow> confined names (file_open rt name)"
  unfolding file_open_def by (rule confined_perform) (auto simp: within_def)

lemma confined_file_write: "name \<in> set names \<Longrightarrow> confined names (file_write rt name data)"
  unfolding file_write_def by (rule confined_perform) (auto simp: within_def)

lemma confined_file_close: "name \<in> set names \<Longrightarrow> confined names (file_close rt name)"
  unfolding file_close_def by (rule confined_perform) (auto simp: within_def)

lemma confined_py_print: "confined names (py_print rt msg)"
  unfolding py_print_def by (rule confined_perform) (auto simp: within_def)

lemma confined_with_open:
  assumes "name \<in> set names" "confined names body"
  shows "confined names (with_open rt name body)"
proof -
  note o = confined_file_open [OF assms(1), of rt] and c = confined_file_close [OF assms(1), of rt]
  show ?thesis
  proof (rule confinedI)
    fix w x w' assume "with_open rt name body w = Inr (x, w')"
    then obtain w1 w2 where "file_open rt name w = Inr ((), w1)" "body w1 = Inr ((), w2)"
      "file_close rt name w2 = Inr (x, w')"
      by (auto simp: with_open_def split: sum.splits prod.splits)
    with confined_Inr [OF o] confined_Inr [OF assms(2)] confined_Inr [OF c]
    show "extends names w w'" by (blast intro: extends_trans)
  next
    fix w e w' assume a: "with_open rt name body w = Inl (e, w')"
    then consider "file_open rt name w = Inl (e, w')"
      | w1 w2 where "file_open rt name w = Inr ((), w1)" "body w1 = Inr ((), w2)"
          "file_close rt name w2 = Inl (e, w')"
      | w1 e2 w2 where "file_open rt name w = Inr ((), w1)" "body w1 = Inl (e2, w2)"
          "file_close rt name w2 = Inl (e, w')"
      | w1 w2 u where "file_open rt name w = Inr ((), w1)" "body w1 = Inl (e, w2)"
          "file_close rt name w2 = Inr (u, w')"
      by (auto simp: with_open_def split: sum.splits prod.splits)
    then show "extends names w w'"
    proof cases
      case 1
      with o show ?thesis by (rule confined_Inl)
    next
      case 2
      with confined_Inr [OF o] confined_Inr [OF assms(2)] confined_Inl [OF c]
      show ?thesis by (blast intro: extends_trans)
    next
      case 3
      with confined_Inr [OF o] confined_Inl [OF assms(2)] confined_Inl [OF c]
      show ?thesis by (blast intro: extends_trans)
    next
      case 4
      with confined_Inr [OF o] confined_Inl [OF assms(2)] confined_Inr [OF c]
      show ?thesis by (blast intro: extends_trans)
    qed
  qed
qed

lemma confined_write_numbers:
  "name \<in> set names \<Longrightarrow> confined names (write_numbers rt name numbers)"
  unfolding write_numbers_def
  by (rule confined_with_open, assumption, rule confined_for_each, rule confined_file_write)

lemma confined_head_info: "confined output_files (head_info rt)"
  unfolding head_info_def
  by (intro confined_bnd confined_quiet quiet_draw_pool quiet_resample confined_write_numbers)
     (simp add: output_files_def)

lemma confined_buff_addr: "confined output_files (buff_addr rt)"
  unfolding buff_addr_def
  by (intro confined_bnd confined_quiet quiet_list_comp quiet_getrandbits confined_write_numbers)
     (simp add: output_files_def)

lemma confined_buff_gapn: "confined output_files (buff_gapn rt)"
  unfolding buff_gapn_def
  by (intro confined_bnd confined_quiet quiet_gapn_draws confined_write_numbers)
     (simp add: output_files_def)

lemma confined_testgen: "confined output_files (testgen rt)"
  unfolding testgen_def
  by (intro confined_bnd confined_head_info confined_buff_addr confined_buff_gapn
        confined_py_print)

lemma opened_writes: "opened (writes name numbers @ es) = opened es"
  by (induction numbers) (simp_all add: writes_def)

lemma opened_block: "opened (block name numbers @ es) = name # opened es"
proof -
  have "opened (writes name numbers @ Performed (Close name) # es) = opened es"
    by (simp add: opened_writes)
  then show ?thesis by (simp add: block_def)
qed

subsection \<open>Runs from the same seed\<close>

lemma agreeD:
  assumes "agree S m m'" "rng w = rng v" "m w = Inr (x, w')" "m' v = Inr (y, v')"
  shows "x = y" "rng w' = rng v'" "name \<in> S \<Longrightarrow> files w' name = files v' name"
    "files w name = files v name \<Longrightarrow> files w' name = files v' name"
  using assms unfolding agree_def by blast+

lemma agreeI:
  assumes "\<And>w v x w' y v'. rng w = rng v \<Longrightarrow> m w = Inr (x, w') \<Longrightarrow> m' v = Inr (y, v') \<Longrightarrow>
     x = y \<and> rng w' = rng v' \<and>
     (\<forall>name. name \<in> S \<or> files w name = files v name \<longrightarrow> files w' name = files v' name)"
  shows "agree S m m'"
  unfolding agree_def using assms by blast

lemma agree_ret: "agree {} (ret x) (ret x)"
  by (rule agreeI) simp

lemma agree_bnd:
  assumes "agree S1 m m'" and "\<And>x. agree S2 (f x) (f' x)"
  shows "agree (S1 \<union> S2) (bnd m f) (bnd m' f')"
proof (rule agreeI)
  fix w v y w' z v'
  assume r: "rng w = rng v" and 1: "bnd m f w = Inr (y, w')" and 2: "bnd m' f' v = Inr (z, v')"
  from 1 obtain x w1 where m: "m w = Inr (x, w1)" and f: "f x w1 = Inr (y, w')"
    by (auto simp: bnd_Inr_iff)
  from 2 obtain x' v1 where m': "m' v = Inr (x', v1)" and f': "f' x' v1 = Inr (z, v')"
    by (auto simp: bnd_Inr_iff)
  note a = agreeD [OF assms(1) r m m']
  from a(1) f' have f'': "f' x v1 = Inr (z, v')" by simp
  note b = agreeD [OF assms(2) a(2) f f'']
  have "files w' name = files v' name"
    if "name \<in> S1 \<union> S2 \<or> files w name = files v name" for name
  proof (cases "name \<in> S2")
    case True
    then show ?thesis by (rule b(3))
  next
    case False
    with that have "name \<in> S1 \<or> files w name = files v name" by blast
    then have "files w1 name = files v1 name" using a(3,4) by blast
    then show ?thesis by (rule b(4))
  qed
  with b(1,2) show "y = z \<and> rng w' = rng v' \<and>
     (\<forall>name. name \<in> S1 \<union> S2 \<or> files w name = files v name \<longrightarrow> files w' name = files v' name)"
    by blast
qed

lemma agree_bnd_draws:
  assumes "agree {} m m'" and "\<And>x. agree S (f x) (f' x)"
  shows "agree S (bnd m f) (bnd m' f')"
  using agree_bnd [OF assms] by simp

lemma agree_list_comp:
  assumes "agree {} m m'"
  shows "agree {} (list_comp n m) (list_comp n m')"
proof (induction n)
  case 0
  show ?case by (simp add: agree_ret)
next
  case (Suc n)
  show ?case
    unfolding list_comp.simps
    by (rule agree_bnd_draws [OF assms], rule agree_bnd_draws [OF Suc], rule agree_ret)
qed

lemma agree_getrandbits:
  assumes "getrandbits rt = getrandbits rt'"
  shows "agree {} (random_getrandbits rt k) (random_getrandbits rt' k)"
  by (rule agreeI) (auto simp: random_getrandbits_def assms split: prod.splits)

lemma agree_randint:
  assumes "randint rt = randint rt'"
  shows "agree {} (random_randint rt a b) (random_randint rt' a b)"
  by (rule agreeI) (auto simp: random_randint_def assms split: prod.splits)

lemma agree_py_index: "agree {} (py_index xs i) (py_index xs i)"
  by (rule agreeI) (auto simp: py_index_def split: if_splits)

lemma agree_write_numbers:
  "agree {name} (write_numbers rt name numbers) (write_numbers rt' name numbers)"
proof (rule agreeI)
  fix w v x w' y v'
  assume r: "rng w = rng v" and 1: "write_numbers rt name numbers w = Inr (x, w')"
    and 2: "write_numbers rt' name numbers v = Inr (y, v')"
  from write_numbers_Inr [OF 1] write_numbers_Inr [OF 2] r
  show "x = y \<and> rng w' = rng v' \<and>
     (\<forall>n. n \<in> {name} \<or> files w n = files v n \<longrightarrow> files w' n = files v' n)"
    by simp
qed

lemma agree_head_info:
  assumes "getrandbits rt = getrandbits rt'" "randint rt = randint rt'"
  shows "agree {''head_info.txt''} (head_info rt) (head_info rt')"
  unfolding head_info_def draw_pool_def resample_def
  by (intro agree_bnd_draws agree_list_comp agree_getrandbits agree_randint agree_py_index
        agree_write_numbers assms)

lemma agree_buff_addr:
  assumes "getrandbits rt = getrandbits rt'"
  shows "agree {''buff_addr.txt''} (buff_addr rt) (buff_addr rt')"
  unfolding buff_addr_def
  by (intro agree_bnd_draws agree_list_comp agree_getrandbits agree_write_numbers assms)

lemma agree_buff_gapn:
  assumes "getrandbits rt = getrandbits rt'"
  shows "agree {''buff_gapn.txt''} (buff_gapn rt) (buff_gapn rt')"
  unfolding buff_gapn_def
  by (intro agree_bnd_draws agree_list_comp agree_getrandbits agree_write_numbers agree_ret assms)

lemma agree_py_print: "agree {} (py_print rt msg) (py_print rt' msg)"
  by (rule agreeI) (auto simp: py_print_def perform_Inr)

lemma agree_testgen:
  assumes "getrandbits rt = getrandbits rt'" "randint rt = randint rt'"
  shows "agree (set output_files) (testgen rt) (testgen rt')"
proof -
  have "agree ({''head_info.txt''} \<union> ({''buff_addr.txt''} \<union> ({''buff_gapn.txt''} \<union> {})))
          (testgen rt) (testgen rt')"
    unfolding testgen_def
    by (intro agree_bnd agree_head_info agree_buff_addr agree_buff_gapn agree_py_print assms)
  then show ?thesis by (simp add: output_files_def insert_commute)
qed

subsection \<open>Runs from different seeds\<close>

lemma counter_draws:
  "list_comp n (random_getrandbits counter_rt k) w =
     Inr (map (\<lambda>i. int ((rng w + i) mod 2 ^ k)) [0..<n], w\<lparr>rng := rng w + n\<rparr>)"
proof (induction n arbitrary: w)
  case 0
  show ?case by (simp add: ret_def)
next
  case (Suc n)
  have m: "random_getrandbits counter_rt k w = Inr (int (rng w mod 2 ^ k), w\<lparr>rng := Suc (rng w)\<rparr>)"
    by (simp add: random_getrandbits_def counter_rt_def)
  have "map (\<lambda>i. int ((rng w + i) mod 2 ^ k)) [0..<Suc n] =
        int (rng w mod 2 ^ k) # map (\<lambda>i. int ((Suc (rng w) + i) mod 2 ^ k)) [0..<n]"
    by (simp add: upt_conv_Cons map_Suc_upt [symmetric] del: upt_Suc)
  with m Suc [of "w\<lparr>rng := Suc (rng w)\<rparr>"] show ?case
    by (simp add: bnd_def ret_def)
qed

lemma list_comp_first:
  assumes "list_comp (Suc n) m w = Inr (xs, w')"
  shows "\<exists>x w1. m w = Inr (x, w1) \<and> hd xs = x"
  using assms by (auto simp: bnd_Inr_iff)

lemma counter_first_number:
  assumes "draw_pool counter_rt (seeded s) = Inr (pool, wp)"
    and "resample counter_rt pool wp = Inr (nums, wn)" and "s < 64"
  shows "hd nums = int (2 * s)"
proof -
  define f where "f = (\<lambda>i. int ((rng (seeded s) + i) mod 2 ^ 32))"
  have "draw_pool counter_rt (seeded s) =
          Inr (map f [0..<64], (seeded s)\<lparr>rng := rng (seeded s) + 64\<rparr>)"
    unfolding draw_pool_def f_def by (rule counter_draws)
  with assms(1) have "Inr (map f [0..<64], (seeded s)\<lparr>rng := rng (seeded s) + 64\<rparr>) =
          (Inr (pool, wp) :: (error \<times> nat world) + (int list \<times> nat world))"
    by (simp only:)
  then have pool: "pool = map f [0..<64]"
    and wp: "wp = (seeded s)\<lparr>rng := rng (seeded s) + 64\<rparr>"
    by (simp_all only: sum.inject prod.inject simp_thms)
  have rwp: "rng wp = s + 64" by (simp add: wp seeded_def)
  have len: "length pool = 64" unfolding pool by (simp only: length_map length_upt diff_zero)
  have "(2048 :: nat) = Suc 2047" by simp
  with assms(2) have
    "list_comp (Suc 2047) (bnd (random_randint counter_rt 0 63) (py_index pool)) wp = Inr (nums, wn)"
    by (simp only: resample_def)
  from list_comp_first [OF this] obtain x w1 where
    x: "bnd (random_randint counter_rt 0 63) (py_index pool) wp = Inr (x, w1)"
    and hd: "hd nums = x"
    by blast
  have i: "int (s + 64) mod 64 = int s" using assms(3) by simp
  have "randint counter_rt 0 63 (rng wp) = (int s, Suc (s + 64))"
    using i by (simp add: counter_rt_def rwp)
  with x have "py_index pool (int s) (wp\<lparr>rng := Suc (s + 64)\<rparr>) = Inr (x, w1)"
    by (simp add: bnd_def random_randint_def)
  with len assms(3) have "x = pool ! s" by (simp add: py_index_def)
  also have "\<dots> = f ([0..<64] ! s)"
    unfolding pool by (rule nth_map) (simp only: length_upt, simp add: assms(3))
  also have "[0..<64] ! s = 0 + s"
    by (rule nth_upt) (simp add: assms(3))
  also have "f (0 + s) = int (2 * s)" using assms(3) by (simp add: f_def seeded_def)
  finally show ?thesis using hd by simp
qed

lemma rendered_inj: "rendered xs = rendered ys \<Longrightarrow> xs = ys"
proof -
  assume "rendered xs = rendered ys"
  then have "split_lines (rendered xs) = split_lines (rendered ys)" by simp
  then have "map format_08x xs = map format_08x ys" by (simp add: split_lines_rendered)
  then have "map read_hex (map format_08x xs) = map read_hex (map format_08x ys)" by simp
  then have "map Some xs = map Some ys" by (simp only: read_hex_lines)
  then show ?thesis by (simp add: inj_map_eq_map)
qed

lemma counter_seeds_differ:
  "\<exists>w' v'. testgen counter_rt (seeded 0) = Inr ((), w') \<and>
           testgen counter_rt (seeded 1) = Inr ((), v') \<and>
           files w' ''head_info.txt'' \<noteq> files v' ''head_info.txt''"
proof -
  from counter_rt_run obtain w' where r0: "testgen counter_rt (seeded 0) = Inr ((), w')"
    by blast
  from counter_rt_run obtain v' where r1: "testgen counter_rt (seeded 1) = Inr ((), v')"
    by blast
  from testgen_summary [OF r0] obtain pool0 wp0 nums0 wn0 where
    0: "draw_pool counter_rt (seeded 0) = Inr (pool0, wp0)"
       "resample counter_rt pool0 wp0 = Inr (nums0, wn0)"
       "files w' ''head_info.txt'' = Some (rendered nums0)"
    by fastforce
  from testgen_summary [OF r1] obtain pool1 wp1 nums1 wn1 where
    1: "draw_pool counter_rt (seeded 1) = Inr (pool1, wp1)"
       "resample counter_rt pool1 wp1 = Inr (nums1, wn1)"
       "files v' ''head_info.txt'' = Some (rendered nums1)"
    by fastforce
  from counter_first_number [OF 0(1,2)] have "hd nums0 = 0" by simp
  moreover from counter_first_number [OF 1(1,2)] have "hd nums1 = 2" by simp
  ultimately have "nums0 \<noteq> nums1" by auto
  then have "rendered nums0 \<noteq> rendered nums1" by (blast dest: rendered_inj)
  with 0(3) 1(3) have "files w' ''head_info.txt'' \<noteq> files v' ''head_info.txt''" by simp
  with r0 r1 show ?thesis by blast
qed

subsection \<open>The indices that the resampling draws\<close>





section \<open>The claims\<close>

text \<open>
  C1: a run in which the operating system refuses no operation, with a generator whose
  \<open>randint(0, 63)\<close> is an integer from 0 to 63, ends normally. After a run that ends
  normally, each of the three output files consists of exactly 2048 lines, each the
  rendering of one number and each ended by a newline; nothing comes before the first
  line, and nothing follows the last newline.
\<close>

theorem testgen_files_2048_lines:
  "(randint_ok rt \<longrightarrow> (\<forall>h e. \<not> io_fails rt h e) \<longrightarrow> (\<exists>w'. testgen rt w = Inr ((), w'))) \<and>
   (\<forall>u w' name.
      testgen rt w = Inr (u, w') \<longrightarrow> name \<in> set output_files \<longrightarrow>
      (\<exists>numbers. length numbers = 2048 \<and> files w' name = Some (rendered numbers) \<and>
         file_lines w' name = Some (map format_08x numbers, [])))"
proof (intro conjI allI impI)
  assume "randint_ok rt" and "\<forall>h e. \<not> io_fails rt h e"
  then show "\<exists>w'. testgen rt w = Inr ((), w')"
    by (simp add: testgen_total)
next
  fix u w' name
  assume run: "testgen rt w = Inr (u, w')" and name: "name \<in> set output_files"
  from testgen_summary [OF run] obtain nums addrs draws where
    l: "length nums = 2048" "length addrs = 2048" "length draws = 2048"
    and f: "files w' = (files w)(''head_info.txt'' \<mapsto> rendered nums,
                                ''buff_addr.txt'' \<mapsto> rendered addrs,
                                ''buff_gapn.txt'' \<mapsto> rendered (map (\<lambda>x. x mod 32) draws))"
    by blast
  from name consider "name = ''head_info.txt''" | "name = ''buff_addr.txt''"
    | "name = ''buff_gapn.txt''"
    by (auto simp: output_files_def)
  then show "\<exists>numbers. length numbers = 2048 \<and> files w' name = Some (rendered numbers) \<and>
         file_lines w' name = Some (map format_08x numbers, [])"
  proof cases
    case 1
    with f have "files w' name = Some (rendered nums)" by simp
    with l(1) file_lines_rendered [OF this] show ?thesis by blast
  next
    case 2
    with f have "files w' name = Some (rendered addrs)" by simp
    with l(2) file_lines_rendered [OF this] show ?thesis by blast
  next
    case 3
    with f have c: "files w' name = Some (rendered (map (\<lambda>x. x mod 32) draws))" by simp
    from l(3) have "length (map (\<lambda>x. x mod 32) draws) = 2048" by simp
    with c file_lines_rendered [OF c] show ?thesis by blast
  qed
qed

theorem testgen_files_2048_lines_witness:
  "\<exists>w' numbers. randint_ok counter_rt \<and> testgen counter_rt (seeded 0) = Inr ((), w') \<and>
     ''buff_gapn.txt'' \<in> set output_files \<and> length numbers = 2048 \<and>
     files w' ''buff_gapn.txt'' = Some (rendered numbers) \<and>
     file_lines w' ''buff_gapn.txt'' = Some (map format_08x numbers, [])"
proof -
  note t = testgen_files_2048_lines [of counter_rt "seeded 0"]
  have io: "\<forall>h e. \<not> io_fails counter_rt h e" by (simp add: counter_rt_def)
  from t counter_rt_randint_ok io obtain w' where
    r: "testgen counter_rt (seeded 0) = Inr ((), w')" by blast
  have m: "''buff_gapn.txt'' \<in> set output_files" by (simp add: output_files_def)
  from t r m obtain numbers where "length numbers = 2048"
    "files w' ''buff_gapn.txt'' = Some (rendered numbers)"
    "file_lines w' ''buff_gapn.txt'' = Some (map format_08x numbers, [])"
    by blast
  with counter_rt_randint_ok r m show ?thesis by blast
qed

text \<open>
  C2: when every \<open>getrandbits(32)\<close> is a non-negative integer below \<open>2 ^ 32\<close>, every line
  of each of the three files of a run that ends normally consists of exactly 8
  characters, each a lowercase hexadecimal digit.
\<close>

theorem lines_are_8_lower_hex:
  assumes "getrandbits_ok rt" and "testgen rt w = Inr (u, w')" and "name \<in> set output_files"
  shows "\<exists>ls. file_lines w' name = Some (ls, []) \<and> length ls = 2048 \<and>
           list_all (\<lambda>l. length l = 8 \<and> list_all lower_hex l) ls"
proof -
  let ?good = "\<lambda>x :: int. 0 \<le> x \<and> x < 2 ^ 32"
  let ?line = "\<lambda>l. length l = 8 \<and> list_all lower_hex l"
  from testgen_summary [OF assms(2)] obtain pool wp nums wn w1 addrs wa w2 draws wd where
    p: "draw_pool rt w = Inr (pool, wp)" and r: "resample rt pool wp = Inr (nums, wn)"
    and a: "list_comp 2048 (random_getrandbits rt 32) w1 = Inr (addrs, wa)"
    and l: "length nums = 2048" "length addrs = 2048" "length draws = 2048"
    and f: "files w' = (files w)(''head_info.txt'' \<mapsto> rendered nums,
                                ''buff_addr.txt'' \<mapsto> rendered addrs,
                                ''buff_gapn.txt'' \<mapsto> rendered (map (\<lambda>x. x mod 32) draws))"
    by blast
  have fmt: "?line (format_08x x)" if "?good x" for x
    using that by (simp add: format_line)
  have ok: "\<exists>ls. file_lines w' name = Some (ls, []) \<and> length ls = 2048 \<and> list_all ?line ls"
    if c: "files w' name = Some (rendered xs)" and n: "length xs = 2048" and g: "list_all ?good xs"
    for xs
  proof -
    from g have "list_all ?line (map format_08x xs)"
      unfolding list_all_map_format by (rule list_all_mono) (rule fmt)
    with file_lines_rendered [OF c] n show ?thesis by simp
  qed
  from p assms(1) have gp: "list_all ?good pool"
    unfolding draw_pool_def by (rule draws_range [rotated])
  have gn: "list_all ?good nums"
  proof (rule list_all_mono [OF resample_from_pool [OF r]])
    fix x assume "\<exists>i < length pool. x = pool ! i"
    with gp show "?good x" by (auto simp: list_all_length)
  qed
  have ga: "list_all ?good addrs"
    by (rule draws_range [OF assms(1) a])
  have "?good (x mod 32)" for x :: int
  proof -
    have "x mod 32 < 32" by simp
    moreover have "(32 :: int) < 2 ^ 32" by simp
    ultimately have "x mod 32 < 2 ^ 32" by (rule less_trans)
    then show ?thesis by simp
  qed
  then have gg: "list_all ?good (map (\<lambda>x. x mod 32) draws)"
    by (simp add: list_all_iff)
  from assms(3) consider "name = ''head_info.txt''" | "name = ''buff_addr.txt''"
    | "name = ''buff_gapn.txt''"
    by (auto simp: output_files_def)
  then show ?thesis
  proof cases
    case 1
    with f have "files w' name = Some (rendered nums)" by simp
    from ok [OF this l(1) gn] show ?thesis .
  next
    case 2
    with f have "files w' name = Some (rendered addrs)" by simp
    from ok [OF this l(2) ga] show ?thesis .
  next
    case 3
    with f have "files w' name = Some (rendered (map (\<lambda>x. x mod 32) draws))" by simp
    from ok [OF this _ gg] l(3) show ?thesis by simp
  qed
qed

theorem lines_are_8_lower_hex_witness:
  "\<exists>w' ls. getrandbits_ok counter_rt \<and> testgen counter_rt (seeded 0) = Inr ((), w') \<and>
     ''head_info.txt'' \<in> set output_files \<and>
     file_lines w' ''head_info.txt'' = Some (ls, []) \<and> length ls = 2048 \<and>
     list_all (\<lambda>l. length l = 8 \<and> list_all lower_hex l) ls"
proof -
  from counter_rt_run obtain w' where r: "testgen counter_rt (seeded 0) = Inr ((), w')"
    by blast
  have m: "''head_info.txt'' \<in> set output_files" by (simp add: output_files_def)
  from lines_are_8_lower_hex [OF counter_rt_getrandbits_ok r m] counter_rt_getrandbits_ok r m
  show ?thesis by blast
qed

text \<open>
  C3: after a run that ends normally, the lines of \<open>buff_gapn.txt\<close> are the renderings
  of the 2048 draws of \<open>getrandbits(32)\<close> of the third phase, each reduced modulo 32, and
  the integer that each line encodes is at least 0 and below 32.
\<close>

theorem buff_gapn_values_below_32:
  assumes "testgen rt w = Inr (u, w')"
  shows "\<exists>w1 w2 draws wd ls.
           head_info rt w = Inr ((), w1) \<and> buff_addr rt w1 = Inr ((), w2) \<and>
           list_comp 2048 (random_getrandbits rt 32) w2 = Inr (draws, wd) \<and>
           file_lines w' ''buff_gapn.txt'' = Some (ls, []) \<and>
           ls = map (\<lambda>x. format_08x (x mod 32)) draws \<and>
           list_all (\<lambda>l. \<exists>x. read_hex l = Some x \<and> 0 \<le> x \<and> x < 32) ls"
proof -
  from testgen_summary [OF assms] obtain w1 w2 draws wd where
    h: "head_info rt w = Inr ((), w1)" and a: "buff_addr rt w1 = Inr ((), w2)"
    and d: "list_comp 2048 (random_getrandbits rt 32) w2 = Inr (draws, wd)"
    and f: "files w' ''buff_gapn.txt'' = Some (rendered (map (\<lambda>x. x mod 32) draws))"
    by fastforce
  let ?ls = "map (\<lambda>x. format_08x (x mod 32)) draws"
  from file_lines_rendered [OF f] have fl: "file_lines w' ''buff_gapn.txt'' = Some (?ls, [])"
    by (simp add: comp_def)
  have "list_all (\<lambda>l. \<exists>x. read_hex l = Some x \<and> 0 \<le> x \<and> x < 32) ?ls"
    by (simp add: list_all_iff read_hex_format)
  with h a d fl show ?thesis by blast
qed

theorem buff_gapn_values_below_32_witness:
  "\<exists>w' w1 w2 draws wd ls.
     testgen counter_rt (seeded 0) = Inr ((), w') \<and>
     head_info counter_rt (seeded 0) = Inr ((), w1) \<and> buff_addr counter_rt w1 = Inr ((), w2) \<and>
     list_comp 2048 (random_getrandbits counter_rt 32) w2 = Inr (draws, wd) \<and>
     file_lines w' ''buff_gapn.txt'' = Some (ls, []) \<and>
     ls = map (\<lambda>x. format_08x (x mod 32)) draws \<and>
     list_all (\<lambda>l. \<exists>x. read_hex l = Some x \<and> 0 \<le> x \<and> x < 32) ls"
proof -
  from counter_rt_run obtain w' where r: "testgen counter_rt (seeded 0) = Inr ((), w')"
    by blast
  from buff_gapn_values_below_32 [OF r] r show ?thesis by blast
qed



text \<open>
  C5: when every \<open>getrandbits(32)\<close> is a non-negative integer below \<open>2 ^ 32\<close>, then after a
  run that ends normally every line of \<open>head_info.txt\<close> and of \<open>buff_addr.txt\<close> encodes an
  integer that is at least 0 and below \<open>2 ^ 32\<close>, every line of \<open>buff_gapn.txt\<close> one that is
  at least 0 and below 32, and every line of the three files is the rendering, 8
  characters long, of the integer it encodes.
\<close>

theorem values_in_range:
  assumes "getrandbits_ok rt" and "testgen rt w = Inr (u, w')"
  shows "\<exists>head addr gapn.
           file_lines w' ''head_info.txt'' = Some (head, []) \<and>
           file_lines w' ''buff_addr.txt'' = Some (addr, []) \<and>
           file_lines w' ''buff_gapn.txt'' = Some (gapn, []) \<and>
           list_all (\<lambda>l. \<exists>x. read_hex l = Some x \<and> 0 \<le> x \<and> x < 2 ^ 32 \<and>
                          l = format_08x x \<and> length l = 8) head \<and>
           list_all (\<lambda>l. \<exists>x. read_hex l = Some x \<and> 0 \<le> x \<and> x < 2 ^ 32 \<and>
                          l = format_08x x \<and> length l = 8) addr \<and>
           list_all (\<lambda>l. \<exists>x. read_hex l = Some x \<and> 0 \<le> x \<and> x < 32 \<and>
                          l = format_08x x \<and> length l = 8) gapn"
proof -
  let ?good = "\<lambda>x :: int. 0 \<le> x \<and> x < 2 ^ 32"
  from testgen_summary [OF assms(2)] obtain pool wp nums wn w1 addrs wa w2 draws wd where
    p: "draw_pool rt w = Inr (pool, wp)" and r: "resample rt pool wp = Inr (nums, wn)"
    and a: "list_comp 2048 (random_getrandbits rt 32) w1 = Inr (addrs, wa)"
    and f: "files w' = (files w)(''head_info.txt'' \<mapsto> rendered nums,
                                ''buff_addr.txt'' \<mapsto> rendered addrs,
                                ''buff_gapn.txt'' \<mapsto> rendered (map (\<lambda>x. x mod 32) draws))"
    by blast
  from f have fh: "files w' ''head_info.txt'' = Some (rendered nums)"
    and fa: "files w' ''buff_addr.txt'' = Some (rendered addrs)"
    and fg: "files w' ''buff_gapn.txt'' = Some (rendered (map (\<lambda>x. x mod 32) draws))"
    by simp_all
  from p assms(1) have gp: "list_all ?good pool"
    unfolding draw_pool_def by (rule draws_range [rotated])
  have gn: "list_all ?good nums"
  proof (rule list_all_mono [OF resample_from_pool [OF r]])
    fix x assume "\<exists>i < length pool. x = pool ! i"
    with gp show "?good x" by (auto simp: list_all_length)
  qed
  have ga: "list_all ?good addrs"
    by (rule draws_range [OF assms(1) a])
  have wide: "list_all (\<lambda>l. \<exists>x. read_hex l = Some x \<and> 0 \<le> x \<and> x < 2 ^ 32 \<and>
                l = format_08x x \<and> length l = 8) (map format_08x xs)"
    if "list_all ?good xs" for xs
    using that by (simp add: list_all_iff read_hex_format format_length)
  have narrow: "list_all (\<lambda>l. \<exists>x. read_hex l = Some x \<and> 0 \<le> x \<and> x < 32 \<and>
                l = format_08x x \<and> length l = 8)
                  (map format_08x (map (\<lambda>x. x mod 32) draws))"
    by (simp add: list_all_iff read_hex_format format_length)
  from file_lines_rendered [OF fh] file_lines_rendered [OF fa] file_lines_rendered [OF fg]
    wide [OF gn] wide [OF ga] narrow
  show ?thesis by blast
qed

theorem values_in_range_witness:
  "\<exists>w' head addr gapn.
     getrandbits_ok counter_rt \<and> testgen counter_rt (seeded 0) = Inr ((), w') \<and>
     file_lines w' ''head_info.txt'' = Some (head, []) \<and>
     file_lines w' ''buff_addr.txt'' = Some (addr, []) \<and>
     file_lines w' ''buff_gapn.txt'' = Some (gapn, []) \<and>
     list_all (\<lambda>l. \<exists>x. read_hex l = Some x \<and> 0 \<le> x \<and> x < 2 ^ 32 \<and>
                    l = format_08x x \<and> length l = 8) head \<and>
     list_all (\<lambda>l. \<exists>x. read_hex l = Some x \<and> 0 \<le> x \<and> x < 2 ^ 32 \<and>
                    l = format_08x x \<and> length l = 8) addr \<and>
     list_all (\<lambda>l. \<exists>x. read_hex l = Some x \<and> 0 \<le> x \<and> x < 32 \<and>
                    l = format_08x x \<and> length l = 8) gapn"
proof -
  from counter_rt_run obtain w' where r: "testgen counter_rt (seeded 0) = Inr ((), w')"
    by blast
  from values_in_range [OF counter_rt_getrandbits_ok r] counter_rt_getrandbits_ok r
  show ?thesis by blast
qed

text \<open>
  C6: the content of the three files is a function of the pseudo-random stream. Two runs
  that end normally, with generators that draw alike and start in the same state (the
  same seed), leave the same content in each of the three files, whatever the files and
  the trace were before and whatever else differs between the two runs. And the
  content does depend on the seed: there is a generator with which the runs from two
  seeds leave different contents in \<open>head_info.txt\<close>.
\<close>

theorem output_determined_by_seed:
  "(\<forall>rt rt' w v u u' w' v' name.
      getrandbits rt = getrandbits rt' \<and> randint rt = randint rt' \<and> rng w = rng v \<and>
      testgen rt w = Inr (u, w') \<and> testgen rt' v = Inr (u', v') \<and> name \<in> set output_files \<longrightarrow>
      files w' name = files v' name) \<and>
   (\<exists>w' v'. testgen counter_rt (seeded 0) = Inr ((), w') \<and>
            testgen counter_rt (seeded 1) = Inr ((), v') \<and>
            files w' ''head_info.txt'' \<noteq> files v' ''head_info.txt'')"
proof (rule conjI)
  show "\<forall>rt rt' w v u u' w' v' name.
      getrandbits rt = getrandbits rt' \<and> randint rt = randint rt' \<and> rng w = rng v \<and>
      testgen rt w = Inr (u, w') \<and> testgen rt' v = Inr (u', v') \<and> name \<in> set output_files \<longrightarrow>
      files w' name = files v' name"
  proof (intro allI impI)
    fix rt rt' w v u u' w' v' name
    assume a: "getrandbits rt = getrandbits rt' \<and> randint rt = randint rt' \<and> rng w = rng v \<and>
      testgen rt w = Inr (u, w') \<and> testgen rt' v = Inr (u', v') \<and> name \<in> set output_files"
    then have "agree (set output_files) (testgen rt) (testgen rt')"
      by (simp add: agree_testgen)
    from agreeD(3) [OF this, of w v u w' u' v' name] a show "files w' name = files v' name"
      by simp
  qed
  show "\<exists>w' v'. testgen counter_rt (seeded 0) = Inr ((), w') \<and>
            testgen counter_rt (seeded 1) = Inr ((), v') \<and>
            files w' ''head_info.txt'' \<noteq> files v' ''head_info.txt''"
    by (rule counter_seeds_differ)
qed

theorem output_determined_by_seed_witness:
  "\<exists>w' v'. testgen counter_rt (seeded 7) = Inr ((), w') \<and>
     testgen counter_rt
       ((seeded 7)\<lparr>files := [''buff_addr.txt'' \<mapsto> ''stale''],
                    trace := [Performed (Print ''earlier'')]\<rparr>) = Inr ((), v') \<and>
     files w' ''buff_addr.txt'' = files v' ''buff_addr.txt''"
proof -
  let ?v = "(seeded 7)\<lparr>files := [''buff_addr.txt'' \<mapsto> ''stale''],
                    trace := [Performed (Print ''earlier'')]\<rparr>"
  from counter_rt_run obtain w' where r0: "testgen counter_rt (seeded 7) = Inr ((), w')"
    by blast
  from counter_rt_run obtain v' where r1: "testgen counter_rt ?v = Inr ((), v')"
    by blast
  have s: "rng (seeded 7) = rng ?v" by simp
  have m: "''buff_addr.txt'' \<in> set output_files" by (simp add: output_files_def)
  from output_determined_by_seed r0 r1 s m
  have "files w' ''buff_addr.txt'' = files v' ''buff_addr.txt''" by blast
  with r0 r1 show ?thesis by blast
qed

text \<open>
  C7: in a run that ends normally the three files are written one after the other. The
  trace of the run is: \<open>head_info.txt\<close> is opened, receives its 2048 writes and is closed;
  then the same for \<open>buff_addr.txt\<close>; then the same for \<open>buff_gapn.txt\<close>; then the message
  is printed. The content that a file has when it is closed is the content it has at the
  end of the run: writing a later file does not change an earlier one.
\<close>

theorem files_written_in_sequence:
  assumes "testgen rt w = Inr (u, w')"
  shows "\<exists>w1 w2 w3 head addr gapn.
           head_info rt w = Inr ((), w1) \<and> buff_addr rt w1 = Inr ((), w2) \<and>
           buff_gapn rt w2 = Inr ((), w3) \<and>
           length head = 2048 \<and> length addr = 2048 \<and> length gapn = 2048 \<and>
           trace w1 = trace w @ block ''head_info.txt'' head \<and>
           trace w2 = trace w1 @ block ''buff_addr.txt'' addr \<and>
           trace w3 = trace w2 @ block ''buff_gapn.txt'' gapn \<and>
           trace w' = trace w3 @ [Performed (Print status_message)] \<and>
           files w1 ''head_info.txt'' = Some (rendered head) \<and>
           files w2 ''head_info.txt'' = files w1 ''head_info.txt'' \<and>
           files w3 ''head_info.txt'' = files w1 ''head_info.txt'' \<and>
           files w' ''head_info.txt'' = files w1 ''head_info.txt'' \<and>
           files w2 ''buff_addr.txt'' = Some (rendered addr) \<and>
           files w3 ''buff_addr.txt'' = files w2 ''buff_addr.txt'' \<and>
           files w' ''buff_addr.txt'' = files w2 ''buff_addr.txt'' \<and>
           files w3 ''buff_gapn.txt'' = Some (rendered gapn) \<and>
           files w' ''buff_gapn.txt'' = files w3 ''buff_gapn.txt''"
proof -
  from testgen_Inr [OF assms] obtain w1 w2 w3 where
    h: "head_info rt w = Inr ((), w1)" and a: "buff_addr rt w1 = Inr ((), w2)"
    and g: "buff_gapn rt w2 = Inr ((), w3)"
    and f: "files w' = files w3" "trace w' = trace w3 @ [Performed (Print status_message)]"
    by blast
  from head_info_Inr [OF h] obtain head where
    1: "length head = 2048"
       "files w1 = (files w)(''head_info.txt'' \<mapsto> rendered head)"
       "trace w1 = trace w @ block ''head_info.txt'' head"
    by blast
  from buff_addr_Inr [OF a] obtain addr where
    2: "length addr = 2048"
       "files w2 = (files w1)(''buff_addr.txt'' \<mapsto> rendered addr)"
       "trace w2 = trace w1 @ block ''buff_addr.txt'' addr"
    by blast
  from buff_gapn_Inr [OF g] obtain draws where
    3: "length draws = 2048"
       "files w3 = (files w2)(''buff_gapn.txt'' \<mapsto> rendered (map (\<lambda>x. x mod 32) draws))"
       "trace w3 = trace w2 @ block ''buff_gapn.txt'' (map (\<lambda>x. x mod 32) draws)"
    by blast
  let ?gapn = "map (\<lambda>x. x mod 32) draws"
  from 3(1) have lg: "length ?gapn = 2048" by simp
  have fs: "files w1 ''head_info.txt'' = Some (rendered head)"
    "files w2 ''head_info.txt'' = files w1 ''head_info.txt''"
    "files w3 ''head_info.txt'' = files w1 ''head_info.txt''"
    "files w' ''head_info.txt'' = files w1 ''head_info.txt''"
    "files w2 ''buff_addr.txt'' = Some (rendered addr)"
    "files w3 ''buff_addr.txt'' = files w2 ''buff_addr.txt''"
    "files w' ''buff_addr.txt'' = files w2 ''buff_addr.txt''"
    "files w3 ''buff_gapn.txt'' = Some (rendered ?gapn)"
    "files w' ''buff_gapn.txt'' = files w3 ''buff_gapn.txt''"
    using f(1) 1(2) 2(2) 3(2) by simp_all
  show ?thesis
    apply (rule exI [of _ w1], rule exI [of _ w2], rule exI [of _ w3])
    apply (rule exI [of _ head], rule exI [of _ addr], rule exI [of _ ?gapn])
    using h a g 1(1) 2(1) lg 1(3) 2(3) 3(3) f(2) fs apply (intro conjI)
    apply assumption+
    done
qed

theorem files_written_in_sequence_witness:
  "\<exists>w' w1 w2 w3 head addr gapn.
     testgen counter_rt (seeded 0) = Inr ((), w') \<and>
     head_info counter_rt (seeded 0) = Inr ((), w1) \<and> buff_addr counter_rt w1 = Inr ((), w2) \<and>
     buff_gapn counter_rt w2 = Inr ((), w3) \<and>
     length head = 2048 \<and> length addr = 2048 \<and> length gapn = 2048 \<and>
     trace w' = block ''head_info.txt'' head @ block ''buff_addr.txt'' addr @
                block ''buff_gapn.txt'' gapn @ [Performed (Print status_message)] \<and>
     files w' ''head_info.txt'' = files w1 ''head_info.txt'' \<and>
     files w' ''buff_addr.txt'' = files w2 ''buff_addr.txt''"
proof -
  from counter_rt_run obtain w' where r: "testgen counter_rt (seeded 0) = Inr ((), w')"
    by blast
  from files_written_in_sequence [OF r] obtain w1 w2 w3 head addr gapn where
    "head_info counter_rt (seeded 0) = Inr ((), w1)" "buff_addr counter_rt w1 = Inr ((), w2)"
    "buff_gapn counter_rt w2 = Inr ((), w3)"
    "length head = 2048" "length addr = 2048" "length gapn = 2048"
    "trace w1 = trace (seeded 0) @ block ''head_info.txt'' head"
    "trace w2 = trace w1 @ block ''buff_addr.txt'' addr"
    "trace w3 = trace w2 @ block ''buff_gapn.txt'' gapn"
    "trace w' = trace w3 @ [Performed (Print status_message)]"
    "files w' ''head_info.txt'' = files w1 ''head_info.txt''"
    "files w' ''buff_addr.txt'' = files w2 ''buff_addr.txt''"
    by blast
  moreover have "trace (seeded 0) = []" by (simp add: seeded_def)
  ultimately show ?thesis using r by auto
qed

text \<open>
  C8: when the operating system refuses an operation of a run, the run ends by the
  exception \<open>OSError\<close>. Every operation before the first refusal was carried out, and
  after it the script attempts nothing but the close of the file that was open: it opens
  no file, writes nothing and prints nothing any more, and it does not repeat the
  refused operation.
\<close>

theorem io_failure_is_fatal:
  assumes "trace (outcome_world (testgen rt w)) = trace w @ new" and "Refused e \<in> set new"
  shows "\<exists>ev w' evs post.
           testgen rt w = Inl (OSError ev, w') \<and> new = map Performed evs @ post \<and>
           aftermath (OSError ev) post"
proof (cases "testgen rt w")
  case (Inr r)
  then obtain u w' where r: "testgen rt w = Inr (u, w')" by (cases r) auto
  from testgen_summary [OF r] obtain nums addrs gaps where
    "trace w' = trace w @ block ''head_info.txt'' nums @ block ''buff_addr.txt'' addrs @
       block ''buff_gapn.txt'' gaps @ [Performed (Print status_message)]"
    by blast
  with r assms(1) have "new = block ''head_info.txt'' nums @ block ''buff_addr.txt'' addrs @
       block ''buff_gapn.txt'' gaps @ [Performed (Print status_message)]"
    by (simp add: outcome_world_def)
  with assms(2) have False by (simp add: block_Performed)
  then show ?thesis ..
next
  case (Inl l)
  then obtain err w' where l: "testgen rt w = Inl (err, w')" by (cases l) auto
  with assms(1) have n: "trace w' = trace w @ new" by (simp add: outcome_world_def)
  from testgen_Inl [OF l] consider "trace w' = trace w"
    | evs post where "trace w' = trace w @ map Performed evs @ post" "aftermath err post"
    by blast
  then show ?thesis
  proof cases
    case 1
    with n assms(2) have False by simp
    then show ?thesis ..
  next
    case 2
    from aftermath_OSError [OF 2(2)] obtain ev where "err = OSError ev" ..
    with 2 n l show ?thesis by auto
  qed
qed

theorem io_failure_is_fatal_witness:
  "\<exists>new ev w' evs post.
     trace (outcome_world (testgen refusing_rt (seeded 0))) = trace (seeded 0) @ new \<and>
     Refused (Open ''head_info.txt'') \<in> set new \<and>
     testgen refusing_rt (seeded 0) = Inl (OSError ev, w') \<and> new = map Performed evs @ post \<and>
     aftermath (OSError ev) post"
proof -
  from refusing_rt_run [of "seeded 0"] obtain w' where
    r: "testgen refusing_rt (seeded 0) = Inl (OSError (Open ''head_info.txt''), w')"
    and t: "trace w' = trace (seeded 0) @ [Refused (Open ''head_info.txt'')]"
    by blast
  from r t have 1: "trace (outcome_world (testgen refusing_rt (seeded 0))) =
      trace (seeded 0) @ [Refused (Open ''head_info.txt'')]"
    by (simp add: outcome_world_def)
  have 2: "Refused (Open ''head_info.txt'') \<in> set [Refused (Open ''head_info.txt'')]" by simp
  from io_failure_is_fatal [OF 1 2] 1 2 show ?thesis by blast
qed

text \<open>
  C9: when every \<open>randint(0, 63)\<close> is an integer from 0 to 63, every index that the
  resampling draws is a valid index of the pool of 64 integers, the indexing returns the
  element of the pool at that index, the resampling ends normally, and no run ends by
  the exception \<open>IndexError\<close>.
\<close>

theorem resample_index_in_bounds:
  assumes "randint_ok rt" and "draw_pool rt w = Inr (pool, wp)"
  shows "length pool = 64 \<and>
         (\<forall>v. \<exists>i g. randint rt 0 63 (rng v) = (i, g) \<and> 0 \<le> i \<and> i < int (length pool) \<and>
                bnd (random_randint rt 0 63) (py_index pool) v
                  = Inr (pool ! nat i, v\<lparr>rng := g\<rparr>)) \<and>
         (\<exists>nums wn. resample rt pool wp = Inr (nums, wn)) \<and>
         (\<forall>err w'. testgen rt w = Inl (err, w') \<longrightarrow> (\<exists>ev. err = OSError ev))"
proof -
  from assms(2) have l: "length pool = 64" by (auto simp: draw_pool_def dest: list_comp_length)
  have idx: "\<exists>i g. randint rt 0 63 (rng v) = (i, g) \<and> 0 \<le> i \<and> i < int (length pool) \<and>
                bnd (random_randint rt 0 63) (py_index pool) v
                  = Inr (pool ! nat i, v\<lparr>rng := g\<rparr>)" for v
  proof -
    obtain i g where ig: "randint rt 0 63 (rng v) = (i, g)" by (cases "randint rt 0 63 (rng v)")
    with assms(1) have "0 \<le> i \<and> i \<le> 63"
      unfolding randint_ok_def by (metis fst_conv)
    with ig l show ?thesis
      by (simp add: bnd_def random_randint_def py_index_def)
  qed
  from resample_total [OF assms(1) l] obtain nums wn where
    r: "resample rt pool wp = Inr (nums, wn)" by blast
  have "\<exists>ev. err = OSError ev" if "testgen rt w = Inl (err, w')" for err w'
  proof -
    from testgen_Inl [OF that] consider
      pool' wp' where "draw_pool rt w = Inr (pool', wp')" "resample rt pool' wp' = Inl (err, w')"
      | post where "aftermath err post"
      by blast
    then show ?thesis
    proof cases
      case 1
      with assms(2) r show ?thesis by simp
    next
      case 2
      then show ?thesis by (rule aftermath_OSError)
    qed
  qed
  with l idx r show ?thesis by blast
qed

theorem resample_index_in_bounds_witness:
  "\<exists>pool wp. randint_ok counter_rt \<and> draw_pool counter_rt (seeded 0) = Inr (pool, wp) \<and>
     length pool = 64 \<and>
     (\<forall>v. \<exists>i g. randint counter_rt 0 63 (rng v) = (i, g) \<and> 0 \<le> i \<and> i < int (length pool) \<and>
            bnd (random_randint counter_rt 0 63) (py_index pool) v
              = Inr (pool ! nat i, v\<lparr>rng := g\<rparr>)) \<and>
     (\<exists>nums wn. resample counter_rt pool wp = Inr (nums, wn))"
proof -
  obtain pool wp where p: "draw_pool counter_rt (seeded 0) = Inr (pool, wp)"
    using draw_pool_total by blast
  from resample_index_in_bounds [OF counter_rt_randint_ok p] counter_rt_randint_ok p
  show ?thesis by blast
qed

text \<open>
  C10: in every run, however it ends, every operation on a file that the script attempts
  is on \<open>head_info.txt\<close>, \<open>buff_addr.txt\<close> or \<open>buff_gapn.txt\<close>, and every file of another name
  is left as it was; \<open>random_numbers_hex.txt\<close> is such a file, so the script neither creates
  nor writes it. A run that ends normally opens exactly the three files, in this order,
  and its last operation prints the message, which contains the name
  \<open>random_numbers_hex.txt\<close>.
\<close>

theorem writes_three_files_only:
  "(\<exists>new. trace (outcome_world (testgen rt w)) = trace w @ new \<and>
          list_all (within output_files) new) \<and>
   (\<forall>name. name \<notin> set output_files \<longrightarrow>
      files (outcome_world (testgen rt w)) name = files w name) \<and>
   ''random_numbers_hex.txt'' \<notin> set output_files \<and>
   files (outcome_world (testgen rt w)) ''random_numbers_hex.txt''
     = files w ''random_numbers_hex.txt'' \<and>
   (\<exists>before after. status_message = before @ ''random_numbers_hex.txt'' @ after) \<and>
   (\<forall>u w'. testgen rt w = Inr (u, w') \<longrightarrow>
      (\<exists>new. trace w' = trace w @ new \<and> opened new = output_files \<and>
             last new = Performed (Print status_message)))"
proof -
  have "extends output_files w (outcome_world (testgen rt w))"
    using confined_testgen [of rt] by (simp add: confined_def)
  then have 1: "\<exists>new. trace (outcome_world (testgen rt w)) = trace w @ new \<and>
          list_all (within output_files) new"
    and 2: "\<forall>name. name \<notin> set output_files \<longrightarrow>
      files (outcome_world (testgen rt w)) name = files w name"
    by (simp_all add: extends_def)
  have 3: "''random_numbers_hex.txt'' \<notin> set output_files"
    by (simp add: output_files_def)
  with 2 have 4: "files (outcome_world (testgen rt w)) ''random_numbers_hex.txt''
     = files w ''random_numbers_hex.txt''" by blast
  have 5: "\<exists>before after. status_message = before @ ''random_numbers_hex.txt'' @ after"
    unfolding status_message_def by blast
  have 6: "\<exists>new. trace w' = trace w @ new \<and> opened new = output_files \<and>
             last new = Performed (Print status_message)"
    if "testgen rt w = Inr (u, w')" for u w'
  proof -
    from testgen_summary [OF that] obtain nums addrs gaps where
      t: "trace w' = trace w @ (block ''head_info.txt'' nums @ block ''buff_addr.txt'' addrs @
         block ''buff_gapn.txt'' gaps @ [Performed (Print status_message)])"
      by auto
    have "opened (block ''head_info.txt'' nums @ block ''buff_addr.txt'' addrs @
         block ''buff_gapn.txt'' gaps @ [Performed (Print status_message)]) = output_files"
      by (simp add: opened_block output_files_def)
    moreover have "last (block ''head_info.txt'' nums @ block ''buff_addr.txt'' addrs @
         block ''buff_gapn.txt'' gaps @ [Performed (Print status_message)])
         = Performed (Print status_message)"
      by simp
    ultimately show ?thesis using t by blast
  qed
  from 1 2 3 4 5 6 show ?thesis by blast
qed

theorem writes_three_files_only_witness:
  "\<exists>w' new. testgen counter_rt (seeded 0) = Inr ((), w') \<and>
     trace w' = new \<and> list_all (within output_files) new \<and> opened new = output_files \<and>
     last new = Performed (Print status_message) \<and>
     files w' ''random_numbers_hex.txt'' = None"
proof -
  from counter_rt_run obtain w' where r: "testgen counter_rt (seeded 0) = Inr ((), w')"
    by blast
  then have o: "outcome_world (testgen counter_rt (seeded 0)) = w'"
    by (simp add: outcome_world_def)
  have s: "trace (seeded 0) = []" "files (seeded 0) ''random_numbers_hex.txt'' = None"
    by (simp_all add: seeded_def)
  from writes_three_files_only [of counter_rt "seeded 0"] r o s show ?thesis
    by auto
qed

end
